theory Spec2Isabelle
  imports Main
begin

section \<open>The remote store, the local tree and the outcomes of a run\<close>

text \<open>
  \<^verbatim>\<open>drive.File\<close>, with the fields the program reads or writes. The remote store
  holds the objects that are not trashed; the program trashes nothing.
\<close>

type_synonym bytes = string

record drive_file =
  Id :: string
  Name :: string
  MimeType :: string
  Md5Checksum :: string
  Parents :: "string list"

definition folder_mime :: string where
  "folder_mime = ''application/vnd.google-apps.folder''"

text \<open>
  The two query strings the program formats. \<open>InParents p\<close> stands for
  \<^verbatim>\<open>'p' in parents and trashed=false\<close>, \<open>FolderNamed n p\<close> for
  \<^verbatim>\<open>name='n' and 'p' in parents and mimeType='application/vnd.google-apps.folder' and trashed=false\<close>.
  A name or an id holding a quote character is outside this reading of the format string.
\<close>

datatype query = InParents string | FolderNamed string string

text \<open>
  A page token is the offset at which the listing resumes; \<open>0\<close> is the empty token
  (the first page on a request, no further page on a reply).
\<close>

datatype call =
    FilesList query nat
  | FilesCreate drive_file "bytes option"
  | FilesUpdate string "bytes option"
  | FilesDelete string

datatype reply =
    Failed
  | Listed "drive_file list" nat
  | Created string
  | Done

datatype event = Api call reply | Print string

datatype err = DriveError | OsError | Wrapped string err

fun show_err :: "err \<Rightarrow> string" where
  "show_err DriveError = ''drive: request failed''"
| "show_err OsError = ''os: operation failed''"
| "show_err (Wrapped msg e) = msg @ '': '' @ show_err e"

text \<open>
  The outcome of a function: its value, its error, or the end of the recursion budget
  before it returned.
\<close>

datatype 'a res = Ok 'a | Fail err | OutOfFuel

text \<open>What \<^verbatim>\<open>os.Open\<close> followed by a read gives for a local path.\<close>

datatype local_file = NoOpen | NoRead | Data bytes

text \<open>
  One call \<^verbatim>\<open>filepath.Walk\<close> makes to its callback: with an error (a directory
  that cannot be listed, an entry that cannot be examined), for a directory, or for
  any other entry.
\<close>

datatype walk_item = WalkErr string | WalkDir string | WalkFile string

text \<open>
  Everything a run reads and does not change: the digest (the local one and the one
  the remote store reports), the page length of listings, which remote calls fail
  (by their number), the order in which \<^verbatim>\<open>range\<close> enumerates the remote index,
  the local tree, and what the start of the process reads.
\<close>

record env =
  md5hex :: "bytes \<Rightarrow> string"
  page_size :: nat
  fault :: "nat \<Rightarrow> bool"
  range_keys :: "(string \<rightharpoonup> drive_file) \<Rightarrow> string list"
  walk :: "string \<Rightarrow> walk_item list"
  rel :: "string \<Rightarrow> string \<Rightarrow> string option"
  read_file :: "string \<Rightarrow> local_file"
  read_config :: "bytes option"
  parse_config :: "bytes \<Rightarrow> (string \<times> string) list option"
  new_service :: bool

record drive_state =
  files :: "drive_file list"
  calls :: nat
  log :: "event list"

section \<open>Paths\<close>

text \<open>\<^verbatim>\<open>strings.Split(s, "/")\<close> and \<^verbatim>\<open>strings.Join(parts, "/")\<close>.\<close>

fun split_slash :: "string \<Rightarrow> string list" where
  "split_slash [] = [[]]"
| "split_slash (c # cs) =
     (if c = CHR ''/'' then [] # split_slash cs
      else (case split_slash cs of [] \<Rightarrow> [[c]] | x # xs \<Rightarrow> (c # x) # xs))"

fun join_slash :: "string list \<Rightarrow> string" where
  "join_slash [] = []"
| "join_slash [x] = x"
| "join_slash (x # y # ys) = x @ CHR ''/'' # join_slash (y # ys)"

text \<open>
  \<^verbatim>\<open>filepath.Clean\<close> with the separator \<^verbatim>\<open>/\<close>: empty and \<^verbatim>\<open>.\<close> elements go,
  \<^verbatim>\<open>..\<close> removes the element before it, or stays at the start of a path that is not
  rooted; the empty result is \<^verbatim>\<open>.\<close>.
\<close>

definition clean_step :: "bool \<Rightarrow> string list \<Rightarrow> string \<Rightarrow> string list" where
  "clean_step rooted out c =
     (if c = [] \<or> c = ''.'' then out
      else if c = ''..'' then
        (if out \<noteq> [] \<and> last out \<noteq> ''..'' then butlast out
         else if rooted then out else out @ [''..''])
      else out @ [c])"

definition filepath_Clean :: "string \<Rightarrow> string" where
  "filepath_Clean s =
     (if s = [] then ''.''
      else
        (let rooted = (hd s = CHR ''/'');
             out = foldl (clean_step rooted) [] (split_slash s);
             r = (if rooted then ''/'' else []) @ join_slash out
         in if r = [] then ''.'' else r))"

text \<open>\<^verbatim>\<open>filepath.Join\<close>: the elements from the first non-empty one on, joined and cleaned.\<close>

definition filepath_Join :: "string list \<Rightarrow> string" where
  "filepath_Join elem =
     (case dropWhile (\<lambda>e. e = []) elem of
        [] \<Rightarrow> []
      | es \<Rightarrow> filepath_Clean (join_slash es))"

section \<open>The remote interface\<close>

definition matches :: "query \<Rightarrow> drive_file \<Rightarrow> bool" where
  "matches q f =
     (case q of
        InParents p \<Rightarrow> p \<in> set (Parents f)
      | FolderNamed n p \<Rightarrow> Name f = n \<and> p \<in> set (Parents f) \<and> MimeType f = folder_mime)"

definition record_call :: "call \<Rightarrow> reply \<Rightarrow> drive_state \<Rightarrow> drive_state" where
  "record_call c r st = st\<lparr>calls := Suc (calls st), log := log st @ [Api c r]\<rparr>"

definition print :: "string \<Rightarrow> drive_state \<Rightarrow> drive_state" where
  "print s st = st\<lparr>log := log st @ [Print s]\<rparr>"

definition page_len :: "env \<Rightarrow> nat" where
  "page_len e = max 1 (page_size e)"

text \<open>
  \<^verbatim>\<open>srv.Files.List().Q(query).PageToken(pageToken).Do()\<close>: the page of the matching
  objects that starts at the token, and the token of the next page (\<open>0\<close> at the end).
\<close>

definition Files_List ::
  "env \<Rightarrow> query \<Rightarrow> nat \<Rightarrow> drive_state \<Rightarrow> (drive_file list \<times> nat) res \<times> drive_state" where
  "Files_List e q pageToken st =
     (if fault e (calls st) then (Fail DriveError, record_call (FilesList q pageToken) Failed st)
      else
        (let found = filter (matches q) (files st);
             page = take (page_len e) (drop pageToken found);
             next = (if pageToken + page_len e < length found then pageToken + page_len e else 0)
         in (Ok (page, next), record_call (FilesList q pageToken) (Listed page next) st)))"

text \<open>The id the store gives a new object: longer than every id the store knows.\<close>

definition known_ids :: "drive_state \<Rightarrow> string list" where
  "known_ids st = concat (map (\<lambda>f. Id f # Parents f) (files st))"

definition fresh_id :: "drive_state \<Rightarrow> string" where
  "fresh_id st = replicate (Suc (foldr max (map length (known_ids st)) 0)) (CHR ''n'')"

text \<open>
  \<^verbatim>\<open>srv.Files.Create(f).Media(content).Do()\<close> (without \<^verbatim>\<open>Media\<close> for a folder): the
  object is added under a new id, with the digest of its content. A content that
  cannot be read fails the call.
\<close>

definition Files_Create ::
  "env \<Rightarrow> drive_file \<Rightarrow> local_file option \<Rightarrow> drive_state \<Rightarrow> drive_file res \<times> drive_state" where
  "Files_Create e f media st =
     (case media of
        Some (Data c) \<Rightarrow>
          (if fault e (calls st) then (Fail DriveError, record_call (FilesCreate f (Some c)) Failed st)
           else
             (let g = f\<lparr>Id := fresh_id st, Md5Checksum := md5hex e c\<rparr>
              in (Ok g, (record_call (FilesCreate f (Some c)) (Created (Id g)) st)
                          \<lparr>files := files st @ [g]\<rparr>)))
      | Some _ \<Rightarrow> (Fail DriveError, record_call (FilesCreate f None) Failed st)
      | None \<Rightarrow>
          (if fault e (calls st) then (Fail DriveError, record_call (FilesCreate f None) Failed st)
           else
             (let g = f\<lparr>Id := fresh_id st, Md5Checksum := []\<rparr>
              in (Ok g, (record_call (FilesCreate f None) (Created (Id g)) st)
                          \<lparr>files := files st @ [g]\<rparr>))))"

text \<open>
  \<^verbatim>\<open>srv.Files.Update(fileID, nil).Media(content).Do()\<close>: the object keeps its id,
  name and parents and takes the digest of the new content. An unknown id fails.
\<close>

definition Files_Update ::
  "env \<Rightarrow> string \<Rightarrow> local_file \<Rightarrow> drive_state \<Rightarrow> unit res \<times> drive_state" where
  "Files_Update e fileID media st =
     (case media of
        Data c \<Rightarrow>
          (if fault e (calls st) \<or> fileID \<notin> set (map Id (files st))
           then (Fail DriveError, record_call (FilesUpdate fileID (Some c)) Failed st)
           else (Ok (), (record_call (FilesUpdate fileID (Some c)) Done st)
                   \<lparr>files := map (\<lambda>f. if Id f = fileID then f\<lparr>Md5Checksum := md5hex e c\<rparr> else f)
                              (files st)\<rparr>))
      | _ \<Rightarrow> (Fail DriveError, record_call (FilesUpdate fileID None) Failed st))"

text \<open>
  \<^verbatim>\<open>srv.Files.Delete(fileID).Do()\<close>: the object leaves the store. An unknown id
  fails. The program calls it on objects that are not folders.
\<close>

definition Files_Delete :: "env \<Rightarrow> string \<Rightarrow> drive_state \<Rightarrow> unit res \<times> drive_state" where
  "Files_Delete e fileID st =
     (if fault e (calls st) \<or> fileID \<notin> set (map Id (files st))
      then (Fail DriveError, record_call (FilesDelete fileID) Failed st)
      else (Ok (), (record_call (FilesDelete fileID) Done st)
              \<lparr>files := filter (\<lambda>f. Id f \<noteq> fileID) (files st)\<rparr>))"

section \<open>The program\<close>

type_synonym remote_index = "string \<rightharpoonup> drive_file"
type_synonym local_index = "string \<rightharpoonup> string"
type_synonym folder_cache = "string \<rightharpoonup> string"

subsection \<open>fetchRemoteFiles\<close>

text \<open>
  \<open>fetchRemoteFiles\<close> is the function, \<open>fetch_pages\<close> its \<^verbatim>\<open>for\<close> loop over the
  pages, \<open>fetch_range\<close> the loop over the objects of one page. The first argument
  bounds the nesting of the calls; the remote hierarchy has no bound of its own.
\<close>

fun fetchRemoteFiles ::
    "nat \<Rightarrow> env \<Rightarrow> string \<Rightarrow> string \<Rightarrow> remote_index \<Rightarrow> drive_state \<Rightarrow> remote_index res \<times> drive_state"
  and fetch_pages ::
    "nat \<Rightarrow> env \<Rightarrow> string \<Rightarrow> string \<Rightarrow> nat \<Rightarrow> remote_index \<Rightarrow> drive_state \<Rightarrow> remote_index res \<times> drive_state"
  and fetch_range ::
    "nat \<Rightarrow> env \<Rightarrow> string \<Rightarrow> drive_file list \<Rightarrow> remote_index \<Rightarrow> drive_state \<Rightarrow> remote_index res \<times> drive_state"
where
  "fetchRemoteFiles 0 e parentID path remoteFiles st = (OutOfFuel, st)"
| "fetchRemoteFiles (Suc n) e parentID path remoteFiles st =
     fetch_pages n e parentID path 0 remoteFiles st"
| "fetch_pages 0 e parentID path pageToken remoteFiles st = (OutOfFuel, st)"
| "fetch_pages (Suc n) e parentID path pageToken remoteFiles st =
     (case Files_List e (InParents parentID) pageToken st of
        (Fail er, st1) \<Rightarrow> (Fail (Wrapped ''unable to list files'' er), st1)
      | (OutOfFuel, st1) \<Rightarrow> (OutOfFuel, st1)
      | (Ok (result_Files, nextPageToken), st1) \<Rightarrow>
          (case fetch_range n e path result_Files remoteFiles st1 of
             (Ok remoteFiles', st2) \<Rightarrow>
               (if nextPageToken = 0 then (Ok remoteFiles', st2)
                else fetch_pages n e parentID path nextPageToken remoteFiles' st2)
           | (r, st2) \<Rightarrow> (r, st2)))"
| "fetch_range n e path [] remoteFiles st = (Ok remoteFiles, st)"
| "fetch_range 0 e path (file # rest) remoteFiles st = (OutOfFuel, st)"
| "fetch_range (Suc n) e path (file # rest) remoteFiles st =
     (let remotePath = filepath_Join [path, Name file]
      in if MimeType file = folder_mime then
           (case fetchRemoteFiles n e (Id file) remotePath remoteFiles st of
              (Ok remoteFiles', st1) \<Rightarrow> fetch_range n e path rest remoteFiles' st1
            | (r, st1) \<Rightarrow> (r, st1))
         else fetch_range n e path rest (remoteFiles(remotePath \<mapsto> file)) st)"

subsection \<open>computeMD5, updateFile, createOrGetFolder, uploadFile\<close>

definition computeMD5 :: "env \<Rightarrow> string \<Rightarrow> string res" where
  "computeMD5 e filePath =
     (case read_file e filePath of
        NoOpen \<Rightarrow> Fail (Wrapped ''unable to open file'' OsError)
      | NoRead \<Rightarrow> Fail (Wrapped ''unable to compute hash'' OsError)
      | Data c \<Rightarrow> Ok (md5hex e c))"

definition updateFile :: "env \<Rightarrow> string \<Rightarrow> string \<Rightarrow> drive_state \<Rightarrow> unit res \<times> drive_state" where
  "updateFile e filePath fileID st =
     (case read_file e filePath of
        NoOpen \<Rightarrow> (Fail (Wrapped ''unable to open file'' OsError), st)
      | media \<Rightarrow>
          (case Files_Update e fileID media st of
             (Ok u, st1) \<Rightarrow> (Ok (), print (''Updated: '' @ filePath) st1)
           | (Fail er, st1) \<Rightarrow> (Fail (Wrapped ''unable to update file'' er), st1)
           | (OutOfFuel, st1) \<Rightarrow> (OutOfFuel, st1)))"

definition createOrGetFolder ::
  "env \<Rightarrow> string \<Rightarrow> string \<Rightarrow> drive_state \<Rightarrow> string res \<times> drive_state" where
  "createOrGetFolder e folderName parentID st =
     (case Files_List e (FolderNamed folderName parentID) 0 st of
        (Fail er, st1) \<Rightarrow> (Fail (Wrapped ''unable to query folders'' er), st1)
      | (OutOfFuel, st1) \<Rightarrow> (OutOfFuel, st1)
      | (Ok (result_Files, nextPageToken), st1) \<Rightarrow>
          (case result_Files of
             f # _ \<Rightarrow> (Ok (Id f), st1)
           | [] \<Rightarrow>
               (case Files_Create e
                       \<lparr>Id = [], Name = folderName, MimeType = folder_mime,
                        Md5Checksum = [], Parents = [parentID]\<rparr> None st1 of
                  (Ok createdFolder, st2) \<Rightarrow> (Ok (Id createdFolder), st2)
                | (Fail er, st2) \<Rightarrow> (Fail (Wrapped ''unable to create folder'' er), st2)
                | (OutOfFuel, st2) \<Rightarrow> (OutOfFuel, st2))))"

text \<open>
  The loop of \<open>uploadFile\<close> over \<^verbatim>\<open>drivePathParts[:len(drivePathParts)-1]\<close>:
  \<open>pre\<close> holds the parts before the current one, so the cache key is the join of
  \<open>pre\<close> and the current part. The cache is a Go map, changed in place: what the loop
  stored stays when it fails.
\<close>

fun resolve_folders ::
  "env \<Rightarrow> string list \<Rightarrow> string list \<Rightarrow> string \<Rightarrow> folder_cache \<Rightarrow> drive_state
     \<Rightarrow> string res \<times> folder_cache \<times> drive_state" where
  "resolve_folders e pre [] parentID folderCache st = (Ok parentID, folderCache, st)"
| "resolve_folders e pre (part # rest) parentID folderCache st =
     (let cacheKey = join_slash (pre @ [part])
      in case folderCache cacheKey of
           Some cachedID \<Rightarrow> resolve_folders e (pre @ [part]) rest cachedID folderCache st
         | None \<Rightarrow>
             (case createOrGetFolder e part parentID st of
                (Ok newID, st1) \<Rightarrow>
                  resolve_folders e (pre @ [part]) rest newID (folderCache(cacheKey \<mapsto> newID)) st1
              | (Fail er, st1) \<Rightarrow>
                  (Fail (Wrapped (''unable to create or get folder '' @ [CHR 0x27] @ cacheKey @ [CHR 0x27]) er),
                   folderCache, st1)
              | (OutOfFuel, st1) \<Rightarrow> (OutOfFuel, folderCache, st1)))"

definition uploadFile ::
  "env \<Rightarrow> string \<Rightarrow> string \<Rightarrow> string \<Rightarrow> folder_cache \<Rightarrow> drive_state
     \<Rightarrow> unit res \<times> folder_cache \<times> drive_state" where
  "uploadFile e filePath relativePath parentID folderCache st =
     (let drivePathParts = split_slash relativePath
      in case resolve_folders e [] (butlast drivePathParts) parentID folderCache st of
           (Ok parentID', folderCache', st1) \<Rightarrow>
             (let fileName = last drivePathParts
              in case read_file e filePath of
                   NoOpen \<Rightarrow> (Fail (Wrapped ''unable to open file'' OsError), folderCache', st1)
                 | media \<Rightarrow>
                     (case Files_Create e
                             \<lparr>Id = [], Name = fileName, MimeType = [],
                              Md5Checksum = [], Parents = [parentID']\<rparr> (Some media) st1 of
                        (Ok g, st2) \<Rightarrow> (Ok (), folderCache', print (''Uploaded: '' @ filePath) st2)
                      | (Fail er, st2) \<Rightarrow> (Fail (Wrapped ''unable to upload file'' er), folderCache', st2)
                      | (OutOfFuel, st2) \<Rightarrow> (OutOfFuel, folderCache', st2)))
         | (Fail er, folderCache', st1) \<Rightarrow> (Fail er, folderCache', st1)
         | (OutOfFuel, folderCache', st1) \<Rightarrow> (OutOfFuel, folderCache', st1))"

subsection \<open>uploadOrUpdateFile, deleteRemoteFiles, syncFiles\<close>

definition uploadOrUpdateFile ::
  "env \<Rightarrow> string \<Rightarrow> string \<Rightarrow> string \<Rightarrow> remote_index \<Rightarrow> string \<Rightarrow> folder_cache \<Rightarrow> drive_state
     \<Rightarrow> unit res \<times> folder_cache \<times> drive_state" where
  "uploadOrUpdateFile e filePath relativePath checksum remoteFiles parentID folderCache st =
     (case remoteFiles relativePath of
        Some remoteFile \<Rightarrow>
          (if Md5Checksum remoteFile = checksum
           then (Ok (), folderCache,
                 print (''File already exists and is identical: '' @ relativePath) st)
           else (case updateFile e filePath (Id remoteFile)
                        (print (''Updating file: '' @ relativePath) st) of
                   (r, st1) \<Rightarrow> (r, folderCache, st1)))
      | None \<Rightarrow>
          uploadFile e filePath relativePath parentID folderCache
            (print (''Uploading new file: '' @ relativePath) st))"

text \<open>
  The loop of \<open>deleteRemoteFiles\<close> over the remote index, in the order \<^verbatim>\<open>range\<close>
  enumerates its keys.
\<close>

fun delete_range ::
  "env \<Rightarrow> local_index \<Rightarrow> remote_index \<Rightarrow> string list \<Rightarrow> drive_state \<Rightarrow> unit res \<times> drive_state" where
  "delete_range e localFiles remoteFiles [] st = (Ok (), st)"
| "delete_range e localFiles remoteFiles (remotePath # rest) st =
     (case remoteFiles remotePath of
        None \<Rightarrow> delete_range e localFiles remoteFiles rest st
      | Some remoteFile \<Rightarrow>
          (if localFiles remotePath = None then
             (case Files_Delete e (Id remoteFile)
                     (print (''Deleting remote file: '' @ remotePath) st) of
                (Ok u, st1) \<Rightarrow> delete_range e localFiles remoteFiles rest st1
              | (Fail er, st1) \<Rightarrow>
                  (Fail (Wrapped (''failed to delete file '' @ remotePath) er), st1)
              | (OutOfFuel, st1) \<Rightarrow> (OutOfFuel, st1))
           else delete_range e localFiles remoteFiles rest st))"

definition deleteRemoteFiles ::
  "env \<Rightarrow> local_index \<Rightarrow> remote_index \<Rightarrow> drive_state \<Rightarrow> unit res \<times> drive_state" where
  "deleteRemoteFiles e localFiles remoteFiles st =
     delete_range e localFiles remoteFiles (range_keys e remoteFiles) st"

text \<open>The callback \<open>syncFiles\<close> gives to \<^verbatim>\<open>filepath.Walk\<close>, and the walk that calls it.\<close>

definition walk_fn ::
  "env \<Rightarrow> string \<Rightarrow> string \<Rightarrow> remote_index \<Rightarrow> walk_item \<Rightarrow> local_index \<Rightarrow> folder_cache \<Rightarrow> drive_state
     \<Rightarrow> unit res \<times> local_index \<times> folder_cache \<times> drive_state" where
  "walk_fn e localDir remoteFolderID remoteFiles item localFiles folderCache st =
     (case item of
        WalkErr path \<Rightarrow> (Fail OsError, localFiles, folderCache, st)
      | WalkDir path \<Rightarrow> (Ok (), localFiles, folderCache, st)
      | WalkFile path \<Rightarrow>
          (case rel e localDir path of
             None \<Rightarrow>
               (Fail (Wrapped ''failed to compute relative path'' OsError), localFiles, folderCache, st)
           | Some relativePath \<Rightarrow>
               (case computeMD5 e path of
                  Ok checksum \<Rightarrow>
                    (case uploadOrUpdateFile e path relativePath checksum remoteFiles
                            remoteFolderID folderCache st of
                       (r, folderCache', st1) \<Rightarrow>
                         (r, localFiles(relativePath \<mapsto> checksum), folderCache', st1))
                | Fail er \<Rightarrow>
                    (Fail (Wrapped (''failed to compute checksum for '' @ path) er),
                     localFiles, folderCache, st)
                | OutOfFuel \<Rightarrow> (OutOfFuel, localFiles, folderCache, st))))"

fun filepath_Walk ::
  "env \<Rightarrow> string \<Rightarrow> string \<Rightarrow> remote_index \<Rightarrow> walk_item list \<Rightarrow> local_index \<Rightarrow> folder_cache
     \<Rightarrow> drive_state \<Rightarrow> unit res \<times> local_index \<times> folder_cache \<times> drive_state" where
  "filepath_Walk e localDir remoteFolderID remoteFiles [] localFiles folderCache st =
     (Ok (), localFiles, folderCache, st)"
| "filepath_Walk e localDir remoteFolderID remoteFiles (item # items) localFiles folderCache st =
     (case walk_fn e localDir remoteFolderID remoteFiles item localFiles folderCache st of
        (Ok u, localFiles', folderCache', st1) \<Rightarrow>
          filepath_Walk e localDir remoteFolderID remoteFiles items localFiles' folderCache' st1
      | (r, localFiles', folderCache', st1) \<Rightarrow> (r, localFiles', folderCache', st1))"

definition syncFiles ::
  "nat \<Rightarrow> env \<Rightarrow> string \<Rightarrow> string \<Rightarrow> drive_state \<Rightarrow> unit res \<times> drive_state" where
  "syncFiles fuel e localDir remoteFolderID st =
     (case fetchRemoteFiles fuel e remoteFolderID [] Map.empty st of
        (Ok remoteFiles, st1) \<Rightarrow>
          (case filepath_Walk e localDir remoteFolderID remoteFiles (walk e localDir)
                  Map.empty Map.empty st1 of
             (Ok u, localFiles, folderCache, st2) \<Rightarrow>
               (case deleteRemoteFiles e localFiles remoteFiles st2 of
                  (Fail er, st3) \<Rightarrow> (Fail (Wrapped ''failed to delete remote files'' er), st3)
                | (r, st3) \<Rightarrow> (r, st3))
           | (r, localFiles, folderCache, st2) \<Rightarrow> (r, st2))
      | (Fail er, st1) \<Rightarrow> (Fail (Wrapped ''failed to fetch remote files'' er), st1)
      | (OutOfFuel, st1) \<Rightarrow> (OutOfFuel, st1))"

subsection \<open>main\<close>

definition getDriveService :: "env \<Rightarrow> unit res" where
  "getDriveService e =
     (if new_service e then Ok () else Fail (Wrapped ''unable to create Drive service'' DriveError))"

text \<open>
  The loop of \<open>main\<close> over the mappings. Each mapping is reconciled by a goroutine of
  its own; here they run one after the other, in the order of the list, which is any
  order. A reconciliation that does not return keeps \<open>main\<close> from returning.
\<close>

fun run_mappings ::
  "nat \<Rightarrow> env \<Rightarrow> (string \<times> string) list \<Rightarrow> drive_state \<Rightarrow> unit res \<times> drive_state" where
  "run_mappings fuel e [] st = (Ok (), st)"
| "run_mappings fuel e ((localDir, remoteFolderID) # rest) st =
     (case syncFiles fuel e localDir remoteFolderID
             (print (''Syncing '' @ localDir @ '' with folder ID '' @ remoteFolderID) st) of
        (Ok u, st1) \<Rightarrow> run_mappings fuel e rest st1
      | (Fail er, st1) \<Rightarrow>
          run_mappings fuel e rest
            (print (''Error syncing files for '' @ localDir @ '': '' @ show_err er) st1)
      | (OutOfFuel, st1) \<Rightarrow> (OutOfFuel, st1))"

text \<open>The value of \<open>main\<close> is the exit status of the process.\<close>

definition main :: "nat \<Rightarrow> env \<Rightarrow> drive_state \<Rightarrow> nat res \<times> drive_state" where
  "main fuel e st =
     (case read_config e of
        None \<Rightarrow> (Ok 1, print (''Error reading input folder map: '' @ show_err OsError) st)
      | Some bx \<Rightarrow>
          (case parse_config e bx of
             None \<Rightarrow> (Ok 1, print (''Error unmarshaling input folder map: '' @ show_err OsError) st)
           | Some localServerDirMap \<Rightarrow>
               (case getDriveService e of
                  Ok srv \<Rightarrow>
                    (case run_mappings fuel e localServerDirMap st of
                       (Ok u, st1) \<Rightarrow> (Ok 0, print ''Sync completed successfully!'' st1)
                     | (Fail er, st1) \<Rightarrow> (Fail er, st1)
                     | (OutOfFuel, st1) \<Rightarrow> (OutOfFuel, st1))
                | Fail er \<Rightarrow> (Ok 1, print (''Error creating Drive service: '' @ show_err er) st)
                | OutOfFuel \<Rightarrow> (OutOfFuel, st))))"

section \<open>Reading the log\<close>

text \<open>The kinds of event, the events a step adds, and a bound on their kind.\<close>

fun is_list :: "event \<Rightarrow> bool" where
  "is_list (Api (FilesList q t) r) = True" | "is_list ev = False"
fun is_create :: "event \<Rightarrow> bool" where
  "is_create (Api (FilesCreate f c) r) = True" | "is_create ev = False"
fun is_update :: "event \<Rightarrow> bool" where
  "is_update (Api (FilesUpdate i c) r) = True" | "is_update ev = False"
fun is_delete :: "event \<Rightarrow> bool" where
  "is_delete (Api (FilesDelete i) r) = True" | "is_delete ev = False"
fun is_print :: "event \<Rightarrow> bool" where
  "is_print (Print s) = True" | "is_print ev = False"

definition new_events :: "drive_state \<Rightarrow> drive_state \<Rightarrow> event list" where
  "new_events st st' = drop (length (log st)) (log st')"

definition adds :: "(event \<Rightarrow> bool) \<Rightarrow> drive_state \<Rightarrow> drive_state \<Rightarrow> bool" where
  "adds P st st' = (take (length (log st)) (log st') = log st \<and> list_all P (new_events st st'))"


text \<open>The ids of the delete calls and the objects of the create calls in a list of events.\<close>

fun deleted_ids :: "event list \<Rightarrow> string list" where
  "deleted_ids [] = []"
| "deleted_ids (Api (FilesDelete i) r # evs) = i # deleted_ids evs"
| "deleted_ids (ev # evs) = deleted_ids evs"

fun api_calls :: "event list \<Rightarrow> call list" where
  "api_calls [] = []"
| "api_calls (Api c r # evs) = c # api_calls evs"
| "api_calls (ev # evs) = api_calls evs"

text \<open>The relative paths of the files a walk of the local directory meets, in its order.\<close>

fun rel_paths :: "env \<Rightarrow> string \<Rightarrow> walk_item list \<Rightarrow> string list" where
  "rel_paths e localDir [] = []"
| "rel_paths e localDir (WalkFile path # items) =
     (case rel e localDir path of
        Some relativePath \<Rightarrow> relativePath # rel_paths e localDir items
      | None \<Rightarrow> rel_paths e localDir items)"
| "rel_paths e localDir (item # items) = rel_paths e localDir items"

section \<open>An example: one local tree, one remote folder\<close>

text \<open>
  The local directory \<^verbatim>\<open>/data\<close> holds \<^verbatim>\<open>a.txt\<close> and \<^verbatim>\<open>sub/b.txt\<close>. The remote
  folder \<^verbatim>\<open>root\<close> holds an older \<^verbatim>\<open>a.txt\<close> and a file \<^verbatim>\<open>old.txt\<close> that has no
  local counterpart.
\<close>

definition example_env :: env where
  "example_env =
     \<lparr>md5hex = (\<lambda>c. ''md5-'' @ c),
      page_size = 100,
      fault = (\<lambda>n. False),
      range_keys = (\<lambda>m. filter (\<lambda>k. m k \<noteq> None) [''a.txt'', ''old.txt'', ''sub/b.txt'']),
      walk = (\<lambda>d. [WalkDir ''/data'', WalkFile ''/data/a.txt'', WalkDir ''/data/sub'',
                    WalkFile ''/data/sub/b.txt'']),
      rel = (\<lambda>d p. if take (Suc (length d)) p = d @ ''/'' then Some (drop (Suc (length d)) p) else None),
      read_file = (\<lambda>p. if p = ''/data/a.txt'' then Data ''alpha''
                        else if p = ''/data/sub/b.txt'' then Data ''beta'' else NoOpen),
      read_config = Some ''config'',
      parse_config = (\<lambda>bx. Some [(''/data'', ''root'')]),
      new_service = True\<rparr>"

definition example_root :: drive_file where
  "example_root =
     \<lparr>Id = ''root'', Name = ''mirror'', MimeType = folder_mime, Md5Checksum = [], Parents = []\<rparr>"

definition example_a :: drive_file where
  "example_a =
     \<lparr>Id = ''f1'', Name = ''a.txt'', MimeType = ''text/plain'', Md5Checksum = ''md5-older'',
      Parents = [''root'']\<rparr>"

definition example_old :: drive_file where
  "example_old =
     \<lparr>Id = ''f2'', Name = ''old.txt'', MimeType = ''text/plain'', Md5Checksum = ''md5-gone'',
      Parents = [''root'']\<rparr>"

definition example_state :: drive_state where
  "example_state = \<lparr>files = [example_root, example_a, example_old], calls = 0, log = []\<rparr>"


text \<open>The same local tree when \<^verbatim>\<open>sub/b.txt\<close> cannot be opened.\<close>

definition example_env_unreadable :: env where
  "example_env_unreadable =
     example_env\<lparr>read_file := (\<lambda>p. if p = ''/data/a.txt'' then Data ''alpha'' else NoOpen)\<rparr>"

text \<open>
  The keys of the remote index, among those enumerated, that the local index does
  not hold: the orphans.
\<close>

definition orphans :: "local_index \<Rightarrow> remote_index \<Rightarrow> string list \<Rightarrow> string list" where
  "orphans localFiles remoteFiles ks = filter (\<lambda>k. remoteFiles k \<noteq> None \<and> localFiles k = None) ks"




text \<open>A remote folder named \<^verbatim>\<open>a.txt\<close>, at the relative path of the local file.\<close>

definition example_state_folder :: drive_state where
  "example_state_folder =
     \<lparr>files = [example_root,
                \<lparr>Id = ''d1'', Name = ''a.txt'', MimeType = folder_mime, Md5Checksum = [],
                 Parents = [''root'']\<rparr>],
      calls = 0, log = []\<rparr>"

text \<open>
  A remote folder \<^verbatim>\<open>sub\<close> listed before a file, with pages of two objects and three
  objects under the root.
\<close>

definition example_state_pages :: drive_state where
  "example_state_pages =
     \<lparr>files = [example_root,
                \<lparr>Id = ''d1'', Name = ''sub'', MimeType = folder_mime, Md5Checksum = [],
                 Parents = [''root'']\<rparr>,
                example_a, example_old,
                \<lparr>Id = ''f3'', Name = ''b.txt'', MimeType = ''text/plain'', Md5Checksum = ''md5-beta'',
                 Parents = [''d1'']\<rparr>],
      calls = 0, log = []\<rparr>"


text \<open>
  Reading the listing calls of a scan. \<open>announced known evs\<close>: every folder whose
  children are requested in \<open>evs\<close> is in \<open>known\<close> or was, as a folder, on a page that
  an earlier reply in \<open>evs\<close> returned. \<open>pending waiting evs\<close>: the folders of \<open>waiting\<close>
  and of \<open>evs\<close> whose latest reply in \<open>evs\<close> (if any) named a further page.
\<close>

fun listed_folders :: "reply \<Rightarrow> string list" where
  "listed_folders (Listed page nxt) = map Id (filter (\<lambda>f. MimeType f = folder_mime) page)"
| "listed_folders rep = []"

fun announced :: "string list \<Rightarrow> event list \<Rightarrow> bool" where
  "announced known [] = True"
| "announced known (Api (FilesList (InParents c) t) rep # evs) =
     (c \<in> set known \<and> announced (listed_folders rep @ known) evs)"
| "announced known (ev # evs) = announced known evs"

fun pending :: "string list \<Rightarrow> event list \<Rightarrow> string list" where
  "pending waiting [] = waiting"
| "pending waiting (Api (FilesList (InParents c) t) (Listed page nxt) # evs) =
     pending (if nxt = 0 then removeAll c waiting else c # waiting) evs"
| "pending waiting (ev # evs) = pending waiting evs"


fun is_ok :: "'a res \<Rightarrow> bool" where
  "is_ok (Ok x) = True"
| "is_ok r = False"

text \<open>
  The shape of the events of a scan. \<open>scan_trace c t ok evs\<close>: \<open>evs\<close> are the events
  of listing the folder \<open>c\<close> from the page of the token \<open>t\<close> on, \<open>ok\<close> telling whether
  the listing came to its end. It is the request of that page, made with the token
  \<open>t\<close>; then, for that page, \<open>range_trace\<close>: the scans of the folders on the page, one
  after the other, each from its first page (the token \<open>0\<close>); then, if the reply named
  a further page, the same from the token the reply named.
\<close>

inductive scan_trace :: "string \<Rightarrow> nat \<Rightarrow> bool \<Rightarrow> event list \<Rightarrow> bool"
  and range_trace :: "drive_file list \<Rightarrow> bool \<Rightarrow> event list \<Rightarrow> bool" where
  scan_out: "scan_trace c t False []"
| scan_fail: "scan_trace c t False [Api (FilesList (InParents c) t) Failed]"
| scan_last:
    "range_trace page ok evr \<Longrightarrow> nxt = 0 \<or> \<not> ok \<Longrightarrow>
       scan_trace c t ok (Api (FilesList (InParents c) t) (Listed page nxt) # evr)"
| scan_more:
    "range_trace page True evr \<Longrightarrow> nxt \<noteq> 0 \<Longrightarrow> scan_trace c nxt ok evp \<Longrightarrow>
       scan_trace c t ok (Api (FilesList (InParents c) t) (Listed page nxt) # evr @ evp)"
| range_nil: "range_trace [] True []"
| range_out: "range_trace (f # fs) False []"
| range_stop:
    "MimeType f = folder_mime \<Longrightarrow> scan_trace (Id f) 0 False evs \<Longrightarrow> range_trace (f # fs) False evs"
| range_folder:
    "MimeType f = folder_mime \<Longrightarrow> scan_trace (Id f) 0 True evs \<Longrightarrow> range_trace fs ok evs' \<Longrightarrow>
       range_trace (f # fs) ok (evs @ evs')"
| range_file:
    "MimeType f \<noteq> folder_mime \<Longrightarrow> range_trace fs ok evs \<Longrightarrow> range_trace (f # fs) ok evs"

section \<open>What the remote store holds at a relative path\<close>

text \<open>
  \<open>folder_at fs c0 p0 c p\<close>: in the store \<open>fs\<close>, going down from the folder \<open>c0\<close>,
  taken to be at the path \<open>p0\<close>, through folders, each a child of the one before, one
  comes to the folder \<open>c\<close>, and \<open>p\<close> is the path the scan gives it.
  \<open>file_at fs c0 p0 p f\<close>: \<open>f\<close> is an object of the store that is not a folder, a child
  of such a folder, at the path \<open>p\<close>.
\<close>

inductive folder_at :: "drive_file list \<Rightarrow> string \<Rightarrow> string \<Rightarrow> string \<Rightarrow> string \<Rightarrow> bool"
  for fs :: "drive_file list" and c0 :: string and p0 :: string where
  here: "folder_at fs c0 p0 c0 p0"
| down:
    "folder_at fs c0 p0 c p \<Longrightarrow> d \<in> set fs \<Longrightarrow> c \<in> set (Parents d) \<Longrightarrow> MimeType d = folder_mime \<Longrightarrow>
       folder_at fs c0 p0 (Id d) (filepath_Join [p, Name d])"

definition file_at :: "drive_file list \<Rightarrow> string \<Rightarrow> string \<Rightarrow> string \<Rightarrow> drive_file \<Rightarrow> bool" where
  "file_at fs c0 p0 p f =
     (\<exists>c q. folder_at fs c0 p0 c q \<and> f \<in> set fs \<and> c \<in> set (Parents f)
            \<and> MimeType f \<noteq> folder_mime \<and> p = filepath_Join [q, Name f])"

text \<open>
  A path element as a local file system has them: not empty, not \<^verbatim>\<open>.\<close> or \<^verbatim>\<open>..\<close>,
  without a separator. A plain relative path is made of such elements.
\<close>

definition plain :: "string \<Rightarrow> bool" where
  "plain s = (s \<noteq> [] \<and> s \<noteq> ''.'' \<and> s \<noteq> ''..'' \<and> CHR ''/'' \<notin> set s)"

definition plain_path :: "string \<Rightarrow> bool" where
  "plain_path p = list_all plain (split_slash p)"

text \<open>
  Two relations between the index before and after a scan of the folder \<open>c\<close> at the
  path \<open>pth\<close>: every new entry is an object the store holds at that path below \<open>c\<close>,
  and no key is lost; an object of a page, or all that is below it if it is a folder,
  has its path among the keys.
\<close>

definition sound_over ::
  "drive_file list \<Rightarrow> string \<Rightarrow> string \<Rightarrow> remote_index \<Rightarrow> remote_index \<Rightarrow> bool" where
  "sound_over fs c pth m m' =
     ((\<forall>p f. m' p = Some f \<longrightarrow> m p = Some f \<or> file_at fs c pth p f) \<and> dom m \<subseteq> dom m')"

definition covered :: "drive_file list \<Rightarrow> string \<Rightarrow> remote_index \<Rightarrow> drive_file \<Rightarrow> bool" where
  "covered fs pth m' x =
     (if MimeType x = folder_mime
      then (\<forall>p f. file_at fs (Id x) (filepath_Join [pth, Name x]) p f \<longrightarrow> p \<in> dom m')
      else filepath_Join [pth, Name x] \<in> dom m')"

section \<open>A remote store shaped as a tree\<close>

text \<open>
  What the remote service keeps true of its objects, as far as a run relies on it:
  ids are not shared, an object has at most one parent, and a folder below the root
  is at one path only. \<open>root_known\<close>: the root is an id the store knows, so that no
  new object gets it. \<open>one_per_path\<close>: no two objects that are not folders are at the
  same relative path.
\<close>

definition tree_like :: "drive_file list \<Rightarrow> string \<Rightarrow> bool" where
  "tree_like fs root =
     (distinct (map Id fs)
      \<and> (\<forall>f\<in>set fs. length (Parents f) \<le> 1)
      \<and> (\<forall>c p q. folder_at fs root [] c p \<longrightarrow> folder_at fs root [] c q \<longrightarrow> p = q))"

definition root_known :: "drive_file list \<Rightarrow> string \<Rightarrow> bool" where
  "root_known fs root = (root \<in> set (concat (map (\<lambda>f. Id f # Parents f) fs)))"

definition one_per_path :: "drive_file list \<Rightarrow> string \<Rightarrow> bool" where
  "one_per_path fs root = (\<forall>p f g. file_at fs root [] p f \<longrightarrow> file_at fs root [] p g \<longrightarrow> f = g)"

text \<open>
  What holds of the store, the local index and the folder cache between two steps of
  the walk, \<open>m0\<close> being the remote index the run started from: the cache names
  folders at their paths; an object at a path of the local index has the digest the
  index holds there, and an object at any other path is the one the remote index
  holds there; every path of the local index has an object; every entry of the remote
  index still has an object of its id at its path.
\<close>

definition walk_inv ::
  "string \<Rightarrow> remote_index \<Rightarrow> local_index \<Rightarrow> folder_cache \<Rightarrow> drive_file list \<Rightarrow> bool" where
  "walk_inv root m0 lf fc fs =
     (tree_like fs root \<and> root_known fs root
      \<and> (\<forall>k i. fc k = Some i \<longrightarrow> folder_at fs root [] i k)
      \<and> (\<forall>p f. file_at fs root [] p f \<longrightarrow>
             lf p = Some (Md5Checksum f) \<or> (lf p = None \<and> m0 p = Some f))
      \<and> (\<forall>p. lf p \<noteq> None \<longrightarrow> (\<exists>f. file_at fs root [] p f))
      \<and> (\<forall>q f0. m0 q = Some f0 \<longrightarrow> (\<exists>f. file_at fs root [] q f \<and> Id f = Id f0)))"

section \<open>A remote hierarchy without cycles\<close>

text \<open>
  \<open>acyclic_store\<close>: the folders of the store can be ranked so that each has a higher
  rank than its parents, which is to say that no folder is below itself. A scan of
  such a store comes to an end. \<open>mintable\<close>: an id of the form the store gives to new
  objects.
\<close>

definition acyclic_store :: "drive_file list \<Rightarrow> bool" where
  "acyclic_store fs =
     (\<exists>rk :: string \<Rightarrow> nat.
        \<forall>f\<in>set fs. MimeType f = folder_mime \<longrightarrow> (\<forall>p\<in>set (Parents f). rk p < rk (Id f)))"

definition mintable :: "string \<Rightarrow> bool" where
  "mintable i = (i \<noteq> [] \<and> list_all (\<lambda>c. c = CHR ''n'') i)"

section \<open>What each function adds to the log\<close>

lemma adds_iff: "adds P st st' \<longleftrightarrow> (\<exists>evs. log st' = log st @ evs \<and> list_all P evs)"
  unfolding adds_def new_events_def
  by (metis append_eq_conv_conj append_take_drop_id)

lemma adds_new_events: "adds P st st' \<Longrightarrow> log st' = log st @ new_events st st'"
  unfolding adds_def new_events_def by (metis append_take_drop_id)

lemma adds_refl: "adds P st st"
  by (simp add: adds_iff)

lemma adds_trans: "adds P st st1 \<Longrightarrow> adds P st1 st2 \<Longrightarrow> adds P st st2"
  unfolding adds_iff by auto

lemma adds_mono: "adds P st st' \<Longrightarrow> (\<And>ev. P ev \<Longrightarrow> Q ev) \<Longrightarrow> adds Q st st'"
  unfolding adds_iff by (auto simp: list_all_iff)

lemma new_events_trans:
  "adds P st st1 \<Longrightarrow> adds Q st1 st2 \<Longrightarrow> new_events st st2 = new_events st st1 @ new_events st1 st2"
  unfolding adds_iff new_events_def by auto

lemma adds_print: "P (Print s) \<Longrightarrow> adds P st (print s st)"
  by (simp add: adds_iff print_def)

lemma adds_record_call: "P (Api c r) \<Longrightarrow> adds P st (record_call c r st)"
  by (simp add: adds_iff record_call_def)

lemma files_print [simp]: "files (print s st) = files st"
  by (simp add: print_def)

lemma calls_print [simp]: "calls (print s st) = calls st"
  by (simp add: print_def)

lemma log_print [simp]: "log (print s st) = log st @ [Print s]"
  by (simp add: print_def)

lemma Files_List_adds: "Files_List e q t st = (r, st') \<Longrightarrow> adds is_list st st' \<and> files st' = files st"
  by (auto simp: Files_List_def Let_def adds_iff record_call_def split: if_splits)

lemma Files_Create_adds: "Files_Create e f m st = (r, st') \<Longrightarrow> adds is_create st st'"
  by (auto simp: Files_Create_def Let_def adds_iff record_call_def split: if_splits option.splits local_file.splits)

lemma Files_Update_adds: "Files_Update e i m st = (r, st') \<Longrightarrow> adds is_update st st'"
  by (auto simp: Files_Update_def Let_def adds_iff record_call_def split: if_splits local_file.splits)

lemma Files_Delete_adds: "Files_Delete e i st = (r, st') \<Longrightarrow> adds is_delete st st'"
  by (auto simp: Files_Delete_def Let_def adds_iff record_call_def split: if_splits)

lemma fetch_adds:
  "fetchRemoteFiles n e pid path m st = (r, st') \<Longrightarrow> adds is_list st st' \<and> files st' = files st"
  "fetch_pages n e pid path tok m st = (r, st') \<Longrightarrow> adds is_list st st' \<and> files st' = files st"
  "fetch_range n e path fs m st = (r, st') \<Longrightarrow> adds is_list st st' \<and> files st' = files st"
proof (induction n e pid path m st and n e pid path tok m st and n e path fs m st
    arbitrary: r st' and r st' and r st' rule: fetchRemoteFiles_fetch_pages_fetch_range.induct)
  case (1 e parentID path remoteFiles st)
  then show ?case by (simp add: adds_refl)
next
  case (2 n e parentID path remoteFiles st)
  then show ?case by simp
next
  case (3 e parentID path pageToken remoteFiles st)
  then show ?case by (simp add: adds_refl)
next
  case (4 n e parentID path pageToken remoteFiles st)
  obtain r1 st1 where L: "Files_List e (InParents parentID) pageToken st = (r1, st1)"
    by (cases "Files_List e (InParents parentID) pageToken st")
  note L1 = Files_List_adds[OF L]
  show ?case
  proof (cases r1)
    case (Ok pg)
    obtain fs nxt where pg: "pg = (fs, nxt)" by (cases pg)
    obtain r2 st2 where R: "fetch_range n e path fs remoteFiles st1 = (r2, st2)"
      by (cases "fetch_range n e path fs remoteFiles st1")
    note R1 = "4.IH"(1)[OF L[symmetric] Ok pg[symmetric] R]
    show ?thesis
    proof (cases r2)
      case (Ok m2)
      show ?thesis
      proof (cases "nxt = 0")
        case True
        with "4.prems" L \<open>r1 = Ok pg\<close> pg R Ok L1 R1 show ?thesis
          by (auto intro: adds_trans)
      next
        case False
        with "4.prems" L \<open>r1 = Ok pg\<close> pg R Ok
        have P: "fetch_pages n e parentID path nxt m2 st2 = (r, st')" by simp
        from "4.IH"(2)[OF L[symmetric] \<open>r1 = Ok pg\<close> pg[symmetric] R[symmetric] Ok False P] L1 R1
        show ?thesis by (auto intro: adds_trans)
      qed
    next
      case (Fail x2)
      with "4.prems" L \<open>r1 = Ok pg\<close> pg R L1 R1 show ?thesis by (auto intro: adds_trans)
    next
      case OutOfFuel
      with "4.prems" L \<open>r1 = Ok pg\<close> pg R L1 R1 show ?thesis by (auto intro: adds_trans)
    qed
  next
    case (Fail x2)
    with "4.prems" L L1 show ?thesis by auto
  next
    case OutOfFuel
    with "4.prems" L L1 show ?thesis by auto
  qed
next
  case (5 n e path remoteFiles st)
  then show ?case by (simp add: adds_refl)
next
  case (6 e path f rest remoteFiles st)
  then show ?case by (simp add: adds_refl)
next
  case (7 n e path f rest remoteFiles st)
  show ?case
  proof (cases "MimeType f = folder_mime")
    case True
    obtain r1 st1 where F: "fetchRemoteFiles n e (Id f) (filepath_Join [path, Name f]) remoteFiles st = (r1, st1)"
      by (cases "fetchRemoteFiles n e (Id f) (filepath_Join [path, Name f]) remoteFiles st")
    note F1 = "7.IH"(1)[OF refl True F]
    show ?thesis
    proof (cases r1)
      case (Ok m1)
      with "7.prems" True F have "fetch_range n e path rest m1 st1 = (r, st')" by (simp add: Let_def)
      from "7.IH"(2)[OF refl True F[symmetric] Ok this] F1 show ?thesis by (auto intro: adds_trans)
    next
      case (Fail x2)
      with "7.prems" True F F1 show ?thesis by (auto simp: Let_def)
    next
      case OutOfFuel
      with "7.prems" True F F1 show ?thesis by (auto simp: Let_def)
    qed
  next
    case False
    with "7.prems" have "fetch_range n e path rest (remoteFiles(filepath_Join [path, Name f] \<mapsto> f)) st = (r, st')"
      by (simp add: Let_def)
    from "7.IH"(3)[OF refl False this] show ?thesis .
  qed
qed


lemma createOrGetFolder_adds:
  assumes "createOrGetFolder e n p st = (r, st')"
  shows "adds (\<lambda>ev. is_list ev \<or> is_create ev) st st'"
proof -
  let ?P = "\<lambda>ev. is_list ev \<or> is_create ev"
  obtain r1 st1 where L: "Files_List e (FolderNamed n p) 0 st = (r1, st1)"
    by (cases "Files_List e (FolderNamed n p) 0 st")
  have A1: "adds ?P st st1"
    using Files_List_adds[OF L] by (auto elim: adds_mono)
  show ?thesis
  proof (cases "\<exists>nx. r1 = Ok ([], nx)")
    case True
    then obtain nx where r1: "r1 = Ok ([], nx)" by blast
    let ?f = "\<lparr>Id = [], Name = n, MimeType = folder_mime, Md5Checksum = [], Parents = [p]\<rparr>"
    obtain r2 st2 where C: "Files_Create e ?f None st1 = (r2, st2)"
      by (cases "Files_Create e ?f None st1")
    have A2: "adds ?P st1 st2"
      using Files_Create_adds[OF C] by (auto elim: adds_mono)
    from assms L r1 C have "st' = st2"
      by (simp add: createOrGetFolder_def split: res.splits)
    with A1 A2 show ?thesis by (auto intro: adds_trans)
  next
    case False
    with assms L have "st' = st1"
      by (auto simp: createOrGetFolder_def split: res.splits list.splits)
    with A1 show ?thesis by simp
  qed
qed


lemma resolve_folders_adds:
  "resolve_folders e pre ps p c st = (r, c', st') \<Longrightarrow> adds (\<lambda>ev. is_list ev \<or> is_create ev) st st'"
proof (induction ps arbitrary: pre p c st)
  case Nil
  then show ?case by (simp add: adds_refl)
next
  case (Cons a ps)
  show ?case
  proof (cases "c (join_slash (pre @ [a]))")
    case None
    obtain r1 st1 where G: "createOrGetFolder e a p st = (r1, st1)"
      by (cases "createOrGetFolder e a p st")
    note G1 = createOrGetFolder_adds[OF G]
    show ?thesis
    proof (cases r1)
      case (Ok x1)
      with Cons.prems None G
      have "resolve_folders e (pre @ [a]) ps x1 (c(join_slash (pre @ [a]) \<mapsto> x1)) st1 = (r, c', st')"
        by (simp add: Let_def)
      from Cons.IH[OF this] G1 show ?thesis by (rule adds_trans[rotated])
    next
      case (Fail x2)
      with Cons.prems None G G1 show ?thesis by (simp add: Let_def)
    next
      case OutOfFuel
      with Cons.prems None G G1 show ?thesis by (simp add: Let_def)
    qed
  next
    case (Some b)
    with Cons.prems have "resolve_folders e (pre @ [a]) ps b c st = (r, c', st')"
      by (simp add: Let_def)
    from Cons.IH[OF this] show ?thesis .
  qed
qed

lemma uploadFile_adds:
  assumes "uploadFile e fp rp p c st = (r, c', st')"
  shows "adds (\<lambda>ev. is_list ev \<or> is_create ev \<or> is_print ev) st st'"
proof -
  let ?P = "\<lambda>ev. is_list ev \<or> is_create ev \<or> is_print ev"
  obtain r1 c1 st1 where R: "resolve_folders e [] (butlast (split_slash rp)) p c st = (r1, c1, st1)"
    by (cases "resolve_folders e [] (butlast (split_slash rp)) p c st")
  have A1: "adds ?P st st1"
    using resolve_folders_adds[OF R] by (rule adds_mono) auto
  show ?thesis
  proof (cases r1)
    case (Ok pid)
    let ?f = "\<lparr>Id = [], Name = last (split_slash rp), MimeType = [], Md5Checksum = [], Parents = [pid]\<rparr>"
    obtain r2 st2 where C: "Files_Create e ?f (Some (read_file e fp)) st1 = (r2, st2)"
      by (cases "Files_Create e ?f (Some (read_file e fp)) st1")
    have A2: "adds ?P st1 st2"
      using Files_Create_adds[OF C] by (rule adds_mono) auto
    have A3: "adds ?P st2 (print (''Uploaded: '' @ fp) st2)"
      by (rule adds_print) simp
    from assms R Ok C have "st' = st1 \<or> st' = st2 \<or> st' = print (''Uploaded: '' @ fp) st2"
      by (cases "read_file e fp"; cases r2) (simp_all add: uploadFile_def Let_def)
    with A1 A2 A3 show ?thesis by (auto intro: adds_trans)
  next
    case (Fail x)
    with assms R have "st' = st1" by (simp add: uploadFile_def Let_def)
    with A1 show ?thesis by simp
  next
    case OutOfFuel
    with assms R have "st' = st1" by (simp add: uploadFile_def Let_def)
    with A1 show ?thesis by simp
  qed
qed

lemma updateFile_adds:
  assumes "updateFile e fp i st = (r, st')"
  shows "adds (\<lambda>ev. is_update ev \<or> is_print ev) st st'"
proof -
  let ?P = "\<lambda>ev. is_update ev \<or> is_print ev"
  obtain r1 st1 where U: "Files_Update e i (read_file e fp) st = (r1, st1)"
    by (cases "Files_Update e i (read_file e fp) st")
  have A1: "adds ?P st st1"
    using Files_Update_adds[OF U] by (rule adds_mono) auto
  have A2: "adds ?P st1 (print (''Updated: '' @ fp) st1)"
    by (rule adds_print) simp
  from assms U have "st' = st \<or> st' = st1 \<or> st' = print (''Updated: '' @ fp) st1"
    by (cases "read_file e fp"; cases r1) (simp_all add: updateFile_def)
  with A1 A2 show ?thesis by (auto intro: adds_trans adds_refl)
qed

lemma uploadOrUpdateFile_adds:
  assumes "uploadOrUpdateFile e fp rp ck rf p c st = (r, c', st')"
  shows "adds (\<lambda>ev. \<not> is_delete ev) st st'"
proof (cases "rf rp")
  case None
  have A0: "adds (\<lambda>ev. \<not> is_delete ev) st (print (''Uploading new file: '' @ rp) st)"
    by (rule adds_print) simp
  from assms None
  have "uploadFile e fp rp p c (print (''Uploading new file: '' @ rp) st) = (r, c', st')"
    by (simp add: uploadOrUpdateFile_def)
  from uploadFile_adds[OF this]
  have "adds (\<lambda>ev. \<not> is_delete ev) (print (''Uploading new file: '' @ rp) st) st'"
    by (rule adds_mono) (auto elim: is_delete.elims)
  with A0 show ?thesis by (rule adds_trans)
next
  case (Some f)
  show ?thesis
  proof (cases "Md5Checksum f = ck")
    case True
    with assms Some have "st' = print (''File already exists and is identical: '' @ rp) st"
      by (simp add: uploadOrUpdateFile_def)
    then show ?thesis by (simp add: adds_print)
  next
    case False
    have A0: "adds (\<lambda>ev. \<not> is_delete ev) st (print (''Updating file: '' @ rp) st)"
      by (rule adds_print) simp
    from assms Some False
    have "updateFile e fp (Id f) (print (''Updating file: '' @ rp) st) = (r, st')"
      by (simp add: uploadOrUpdateFile_def split: prod.splits)
    from updateFile_adds[OF this]
    have "adds (\<lambda>ev. \<not> is_delete ev) (print (''Updating file: '' @ rp) st) st'"
      by (rule adds_mono) (auto elim: is_delete.elims)
    with A0 show ?thesis by (rule adds_trans)
  qed
qed

lemma walk_fn_adds:
  assumes "walk_fn e l rid rf item lf c st = (r, lf', c', st')"
  shows "adds (\<lambda>ev. \<not> is_delete ev) st st'"
proof (cases "\<exists>path rp ck. item = WalkFile path \<and> rel e l path = Some rp \<and> computeMD5 e path = Ok ck")
  case True
  then obtain path rp ck where *: "item = WalkFile path" "rel e l path = Some rp" "computeMD5 e path = Ok ck"
    by blast
  obtain r1 c1 st1 where U: "uploadOrUpdateFile e path rp ck rf rid c st = (r1, c1, st1)"
    by (cases "uploadOrUpdateFile e path rp ck rf rid c st")
  with assms * have "st' = st1" by (simp add: walk_fn_def)
  with uploadOrUpdateFile_adds[OF U] show ?thesis by simp
next
  case False
  with assms have "st' = st"
    by (auto simp: walk_fn_def split: walk_item.splits option.splits res.splits)
  then show ?thesis by (simp add: adds_refl)
qed

lemma filepath_Walk_adds:
  "filepath_Walk e l rid rf items lf c st = (r, lf', c', st') \<Longrightarrow> adds (\<lambda>ev. \<not> is_delete ev) st st'"
proof (induction items arbitrary: lf c st)
  case Nil
  then show ?case by (simp add: adds_refl)
next
  case (Cons item items)
  obtain r1 lf1 c1 st1 where W: "walk_fn e l rid rf item lf c st = (r1, lf1, c1, st1)"
    by (cases "walk_fn e l rid rf item lf c st")
  note A1 = walk_fn_adds[OF W]
  show ?case
  proof (cases r1)
    case (Ok u)
    with Cons.prems W have "filepath_Walk e l rid rf items lf1 c1 st1 = (r, lf', c', st')" by simp
    from A1 Cons.IH[OF this] show ?thesis by (rule adds_trans)
  next
    case (Fail x)
    with Cons.prems W A1 show ?thesis by simp
  next
    case OutOfFuel
    with Cons.prems W A1 show ?thesis by simp
  qed
qed

lemma delete_range_adds:
  "delete_range e lf rf ks st = (r, st') \<Longrightarrow> adds (\<lambda>ev. is_delete ev \<or> is_print ev) st st'"
proof (induction ks arbitrary: st)
  case Nil
  then show ?case by (simp add: adds_refl)
next
  case (Cons k ks)
  let ?P = "\<lambda>ev. is_delete ev \<or> is_print ev"
  show ?case
  proof (cases "\<exists>f. rf k = Some f \<and> lf k = None")
    case True
    then obtain f where f: "rf k = Some f" "lf k = None" by blast
    let ?st0 = "print (''Deleting remote file: '' @ k) st"
    have A0: "adds ?P st ?st0" by (rule adds_print) simp
    obtain r1 st1 where D: "Files_Delete e (Id f) ?st0 = (r1, st1)"
      by (cases "Files_Delete e (Id f) ?st0")
    have A1: "adds ?P ?st0 st1" using Files_Delete_adds[OF D] by (rule adds_mono) auto
    show ?thesis
    proof (cases r1)
      case (Ok u)
      with Cons.prems f D have "delete_range e lf rf ks st1 = (r, st')" by simp
      from Cons.IH[OF this] A0 A1 show ?thesis by (blast intro: adds_trans)
    next
      case (Fail x)
      with Cons.prems f D have "st' = st1" by simp
      with A0 A1 show ?thesis by (blast intro: adds_trans)
    next
      case OutOfFuel
      with Cons.prems f D have "st' = st1" by simp
      with A0 A1 show ?thesis by (blast intro: adds_trans)
    qed
  next
    case False
    with Cons.prems have "delete_range e lf rf ks st = (r, st')"
      by (auto split: option.splits if_splits)
    from Cons.IH[OF this] show ?thesis .
  qed
qed

lemmas run_defs =
  syncFiles_def Files_List_def Files_Create_def Files_Update_def Files_Delete_def matches_def
  page_len_def record_call_def Let_def filepath_Join_def filepath_Clean_def clean_step_def
  folder_mime_def walk_fn_def computeMD5_def uploadOrUpdateFile_def updateFile_def uploadFile_def
  createOrGetFolder_def deleteRemoteFiles_def print_def fresh_id_def known_ids_def new_events_def

lemmas example_defs =
  example_env_def example_state_def example_root_def example_a_def example_old_def
  example_env_unreadable_def

lemma new_events_append: "log st' = log st @ evs \<Longrightarrow> new_events st st' = evs"
  by (simp add: new_events_def)

lemma new_events_self [simp]: "new_events st st = []"
  by (simp add: new_events_def)

lemma new_events_print [simp]: "new_events st (print s st) = [Print s]"
  by (simp add: new_events_def)

lemma deleted_ids_append: "deleted_ids (xs @ ys) = deleted_ids xs @ deleted_ids ys"
  by (induction xs rule: deleted_ids.induct) simp_all

lemma api_calls_append: "api_calls (xs @ ys) = api_calls xs @ api_calls ys"
  by (induction xs rule: api_calls.induct) simp_all

lemma deleted_ids_none: "list_all (\<lambda>ev. \<not> is_delete ev) evs \<Longrightarrow> deleted_ids evs = []"
  by (induction evs rule: deleted_ids.induct) simp_all

text \<open>
  C8. When the mapping file cannot be read or parsed, or the remote session cannot be
  set up, the process ends with status 1 and has done nothing but print one message:
  the remote store, the number of remote calls and the log before the message are as
  they were, so no mapping was reconciled.
\<close>

theorem startup_failure_exits_first:
  assumes "read_config e = None \<or> (\<exists>bx. read_config e = Some bx \<and> parse_config e bx = None)
           \<or> \<not> new_service e"
  shows "\<exists>msg. main fuel e st = (Ok 1, print msg st)"
  using assms by (auto simp: main_def getDriveService_def split: option.splits)

theorem startup_failure_exits_first_witness:
  "\<not> new_service (example_env\<lparr>new_service := False\<rparr>) \<and>
   (\<exists>msg. main 5 (example_env\<lparr>new_service := False\<rparr>) example_state = (Ok 1, print msg example_state))"
  using startup_failure_exits_first [of "example_env\<lparr>new_service := False\<rparr>" 5 example_state]
  by simp

lemma Files_Update_result:
  assumes "Files_Update e i (Data c) st = (r, st')"
  shows "api_calls (new_events st st') = [FilesUpdate i (Some c)]"
    and "map Id (files st') = map Id (files st)"
    and "r = Ok () \<Longrightarrow> files st' = map (\<lambda>f. if Id f = i then f\<lparr>Md5Checksum := md5hex e c\<rparr> else f) (files st)"
    and "r \<noteq> Ok () \<Longrightarrow> files st' = files st"
    and "calls st' = Suc (calls st)"
  using assms
  by (auto simp: Files_Update_def record_call_def new_events_def comp_def split: if_splits)

lemma new_events_print_after:
  assumes "adds P st st1"
  shows "new_events st (print s st1) = new_events st st1 @ [Print s]"
proof -
  from assms obtain evs where "log st1 = log st @ evs" unfolding adds_iff by blast
  then show ?thesis by (simp add: new_events_def)
qed

lemma Files_Create_grows:
  "Files_Create e f m st = (r, st') \<Longrightarrow> \<exists>new. files st' = files st @ new"
  by (auto simp: Files_Create_def Let_def record_call_def
      split: option.splits local_file.splits if_splits)

lemma createOrGetFolder_grows:
  assumes "createOrGetFolder e n p st = (r, st')"
  shows "\<exists>new. files st' = files st @ new"
proof -
  obtain r1 st1 where L: "Files_List e (FolderNamed n p) 0 st = (r1, st1)"
    by (cases "Files_List e (FolderNamed n p) 0 st")
  have A1: "files st1 = files st" using Files_List_adds[OF L] by simp
  show ?thesis
  proof (cases "\<exists>nx. r1 = Ok ([], nx)")
    case True
    then obtain nx where r1: "r1 = Ok ([], nx)" by blast
    let ?f = "\<lparr>Id = [], Name = n, MimeType = folder_mime, Md5Checksum = [], Parents = [p]\<rparr>"
    obtain r2 st2 where C: "Files_Create e ?f None st1 = (r2, st2)"
      by (cases "Files_Create e ?f None st1")
    from assms L r1 C have "st' = st2"
      by (simp add: createOrGetFolder_def split: res.splits)
    with A1 Files_Create_grows[OF C] show ?thesis by simp
  next
    case False
    with assms L have "st' = st1"
      by (auto simp: createOrGetFolder_def split: res.splits list.splits)
    with A1 show ?thesis by simp
  qed
qed

lemma resolve_folders_grows:
  "resolve_folders e pre ps p c st = (r, c', st') \<Longrightarrow> \<exists>new. files st' = files st @ new"
proof (induction ps arbitrary: pre p c st)
  case Nil
  then show ?case by simp
next
  case (Cons a ps)
  show ?case
  proof (cases "c (join_slash (pre @ [a]))")
    case None
    obtain r1 st1 where G: "createOrGetFolder e a p st = (r1, st1)"
      by (cases "createOrGetFolder e a p st")
    from createOrGetFolder_grows[OF G] obtain n1 where G1: "files st1 = files st @ n1" by blast
    show ?thesis
    proof (cases r1)
      case (Ok x1)
      with Cons.prems None G
      have "resolve_folders e (pre @ [a]) ps x1 (c(join_slash (pre @ [a]) \<mapsto> x1)) st1 = (r, c', st')"
        by (simp add: Let_def)
      from Cons.IH[OF this] G1 show ?thesis by auto
    next
      case (Fail x2)
      with Cons.prems None G G1 show ?thesis by (simp add: Let_def)
    next
      case OutOfFuel
      with Cons.prems None G G1 show ?thesis by (simp add: Let_def)
    qed
  next
    case (Some b)
    with Cons.prems have "resolve_folders e (pre @ [a]) ps b c st = (r, c', st')"
      by (simp add: Let_def)
    from Cons.IH[OF this] show ?thesis .
  qed
qed

lemma uploadFile_grows:
  assumes "uploadFile e fp rp p c st = (r, c', st')"
  shows "\<exists>new. files st' = files st @ new"
proof -
  obtain r1 c1 st1 where R: "resolve_folders e [] (butlast (split_slash rp)) p c st = (r1, c1, st1)"
    by (cases "resolve_folders e [] (butlast (split_slash rp)) p c st")
  from resolve_folders_grows[OF R] obtain n1 where A1: "files st1 = files st @ n1" by blast
  show ?thesis
  proof (cases r1)
    case (Ok pid)
    let ?f = "\<lparr>Id = [], Name = last (split_slash rp), MimeType = [], Md5Checksum = [], Parents = [pid]\<rparr>"
    obtain r2 st2 where C: "Files_Create e ?f (Some (read_file e fp)) st1 = (r2, st2)"
      by (cases "Files_Create e ?f (Some (read_file e fp)) st1")
    from Files_Create_grows[OF C] obtain n2 where A2: "files st2 = files st1 @ n2" by blast
    from assms R Ok C have "st' = st1 \<or> st' = st2 \<or> st' = print (''Uploaded: '' @ fp) st2"
      by (cases "read_file e fp"; cases r2) (simp_all add: uploadFile_def Let_def)
    with A1 A2 show ?thesis by auto
  next
    case (Fail x)
    with assms R have "st' = st1" by (simp add: uploadFile_def Let_def)
    with A1 show ?thesis by simp
  next
    case OutOfFuel
    with assms R have "st' = st1" by (simp add: uploadFile_def Let_def)
    with A1 show ?thesis by simp
  qed
qed

lemma updateFile_not_Ok:
  assumes "updateFile e fp i st = (r, st')" "r \<noteq> Ok ()"
  shows "files st' = files st"
proof -
  obtain r1 st1 where U: "Files_Update e i (read_file e fp) st = (r1, st1)"
    by (cases "Files_Update e i (read_file e fp) st")
  have "r1 \<noteq> Ok () \<Longrightarrow> files st1 = files st"
    using U by (auto simp: Files_Update_def record_call_def split: local_file.splits if_splits)
  moreover from assms U have "st' = st \<or> (st' = st1 \<and> r1 \<noteq> Ok ())"
    by (cases "read_file e fp"; cases r1) (auto simp: updateFile_def)
  ultimately show ?thesis by auto
qed

lemma uploadOrUpdateFile_not_Ok:
  assumes "uploadOrUpdateFile e fp rp ck rf p c st = (r, c', st')" "r \<noteq> Ok ()"
  shows "\<exists>new. files st' = files st @ new"
proof (cases "rf rp")
  case None
  with assms have "uploadFile e fp rp p c (print (''Uploading new file: '' @ rp) st) = (r, c', st')"
    by (simp add: uploadOrUpdateFile_def)
  from uploadFile_grows[OF this] show ?thesis by simp
next
  case (Some f)
  with assms have ne: "Md5Checksum f \<noteq> ck"
    by (auto simp: uploadOrUpdateFile_def)
  with assms Some
  have "updateFile e fp (Id f) (print (''Updating file: '' @ rp) st) = (r, st')"
    by (simp add: uploadOrUpdateFile_def split: prod.splits)
  from updateFile_not_Ok[OF this assms(2)] show ?thesis by simp
qed

lemma walk_fn_not_Ok:
  assumes "walk_fn e l rid rf item lf c st = (r, lf', c', st')" "r \<noteq> Ok ()"
  shows "\<exists>new. files st' = files st @ new"
proof (cases "\<exists>path rp ck. item = WalkFile path \<and> rel e l path = Some rp \<and> computeMD5 e path = Ok ck")
  case True
  then obtain path rp ck where *: "item = WalkFile path" "rel e l path = Some rp" "computeMD5 e path = Ok ck"
    by blast
  obtain r1 c1 st1 where U: "uploadOrUpdateFile e path rp ck rf rid c st = (r1, c1, st1)"
    by (cases "uploadOrUpdateFile e path rp ck rf rid c st")
  with assms * have "st' = st1" "r1 = r" by (simp_all add: walk_fn_def)
  with uploadOrUpdateFile_not_Ok[OF U] assms(2) show ?thesis by simp
next
  case False
  with assms have "st' = st"
    by (auto simp: walk_fn_def split: walk_item.splits option.splits res.splits)
  then show ?thesis by simp
qed

lemma filepath_Walk_append:
  "filepath_Walk e l rid rf (xs @ ys) lf c st =
     (case filepath_Walk e l rid rf xs lf c st of
        (Ok u, lf1, c1, st1) \<Rightarrow> filepath_Walk e l rid rf ys lf1 c1 st1
      | other \<Rightarrow> other)"
proof (induction xs arbitrary: lf c st)
  case Nil
  then show ?case by simp
next
  case (Cons x xs)
  obtain r1 lf1 c1 st1 where W: "walk_fn e l rid rf x lf c st = (r1, lf1, c1, st1)"
    by (cases "walk_fn e l rid rf x lf c st")
  show ?case
    by (cases r1) (simp_all add: W Cons.IH)
qed

text \<open>
  C10. When a step of the local walk fails (the callback is called with an error, the
  relative path or the digest cannot be computed, or the create or update of the file
  fails), \<open>syncFiles\<close> returns that error in the state the failing step left: the run
  has made no delete call, and every object the store held after the steps before the
  failing one is still there.
\<close>

theorem walk_failure_skips_deletion:
  assumes "fetchRemoteFiles fuel e remoteFolderID [] Map.empty st = (Ok remoteFiles, st1)"
      and "walk e localDir = before @ item # after"
      and "filepath_Walk e localDir remoteFolderID remoteFiles before Map.empty Map.empty st1
             = (Ok (), lf1, fc1, st_mid)"
      and "walk_fn e localDir remoteFolderID remoteFiles item lf1 fc1 st_mid = (Fail er, lf2, fc2, st2)"
  shows "syncFiles fuel e localDir remoteFolderID st = (Fail er, st2)
       \<and> deleted_ids (new_events st st2) = []
       \<and> (\<exists>new. files st2 = files st_mid @ new)"
proof -
  have W: "filepath_Walk e localDir remoteFolderID remoteFiles (walk e localDir) Map.empty Map.empty st1
             = (Fail er, lf2, fc2, st2)"
    by (simp add: assms(2) filepath_Walk_append assms(3) assms(4))
  have S: "syncFiles fuel e localDir remoteFolderID st = (Fail er, st2)"
    by (simp add: syncFiles_def assms(1) W)
  have "adds (\<lambda>ev. \<not> is_delete ev) st st1"
    using fetch_adds(1)[OF assms(1)] by (auto elim!: adds_mono elim: is_delete.elims)
  moreover note filepath_Walk_adds[OF W]
  ultimately have "adds (\<lambda>ev. \<not> is_delete ev) st st2" by (rule adds_trans)
  then have D: "deleted_ids (new_events st st2) = []"
    by (simp add: adds_def deleted_ids_none)
  from walk_fn_not_Ok[OF assms(4)] have "\<exists>new. files st2 = files st_mid @ new" by simp
  with S D show ?thesis by simp
qed



theorem walk_failure_skips_deletion_witness:
  "\<exists>er st2. syncFiles 5 example_env_unreadable ''/data'' ''root'' example_state = (Fail er, st2)
      \<and> deleted_ids (new_events example_state st2) = []
      \<and> map Md5Checksum (files st2) = [[], ''md5-alpha'', ''md5-gone'']"
proof -
  have "\<exists>rf st1 lf1 fc1 st_mid er lf2 fc2 st2.
      fetchRemoteFiles 5 example_env_unreadable ''root'' [] Map.empty example_state = (Ok rf, st1)
    \<and> walk example_env_unreadable ''/data''
        = [WalkDir ''/data'', WalkFile ''/data/a.txt'', WalkDir ''/data/sub''] @ WalkFile ''/data/sub/b.txt'' # []
    \<and> filepath_Walk example_env_unreadable ''/data'' ''root'' rf
          [WalkDir ''/data'', WalkFile ''/data/a.txt'', WalkDir ''/data/sub''] Map.empty Map.empty st1
          = (Ok (), lf1, fc1, st_mid)
    \<and> walk_fn example_env_unreadable ''/data'' ''root'' rf (WalkFile ''/data/sub/b.txt'') lf1 fc1 st_mid
          = (Fail er, lf2, fc2, st2)
    \<and> map Md5Checksum (files st_mid) = [[], ''md5-alpha'', ''md5-gone'']
    \<and> files st2 = files st_mid"
    by (simp add: run_defs example_defs eval_nat_numeral)
  then obtain rf st1 lf1 fc1 st_mid er lf2 fc2 st2 where
      h1: "fetchRemoteFiles 5 example_env_unreadable ''root'' [] Map.empty example_state = (Ok rf, st1)"
    and h2: "walk example_env_unreadable ''/data''
        = [WalkDir ''/data'', WalkFile ''/data/a.txt'', WalkDir ''/data/sub''] @ WalkFile ''/data/sub/b.txt'' # []"
    and h3: "filepath_Walk example_env_unreadable ''/data'' ''root'' rf
          [WalkDir ''/data'', WalkFile ''/data/a.txt'', WalkDir ''/data/sub''] Map.empty Map.empty st1
          = (Ok (), lf1, fc1, st_mid)"
    and h4: "walk_fn example_env_unreadable ''/data'' ''root'' rf (WalkFile ''/data/sub/b.txt'') lf1 fc1 st_mid
          = (Fail er, lf2, fc2, st2)"
    and h5: "map Md5Checksum (files st_mid) = [[], ''md5-alpha'', ''md5-gone'']"
    and h6: "files st2 = files st_mid"
    by (elim exE conjE) (rule that, assumption+)
  from walk_failure_skips_deletion [OF h1 h2 h3 h4] h5 h6 show ?thesis by auto
qed

lemma Files_Delete_log:
  "Files_Delete e i st = (r, st') \<Longrightarrow> \<exists>rep. log st' = log st @ [Api (FilesDelete i) rep]"
  by (auto simp: Files_Delete_def record_call_def split: if_splits)

lemma delete_range_log:
  "delete_range e lf rf ks st = (r, st') \<Longrightarrow>
     \<exists>evs n. log st' = log st @ evs
       \<and> deleted_ids evs = take n (map (\<lambda>k. Id (the (rf k))) (orphans lf rf ks))
       \<and> (r = Ok () \<longrightarrow> deleted_ids evs = map (\<lambda>k. Id (the (rf k))) (orphans lf rf ks))"
proof (induction ks arbitrary: st)
  case Nil
  then show ?case by (simp add: orphans_def)
next
  case (Cons k ks)
  show ?case
  proof (cases "\<exists>f. rf k = Some f \<and> lf k = None")
    case True
    then obtain f where f: "rf k = Some f" "lf k = None" by blast
    then have o: "orphans lf rf (k # ks) = k # orphans lf rf ks" by (simp add: orphans_def)
    let ?st0 = "print (''Deleting remote file: '' @ k) st"
    obtain r1 st1 where D: "Files_Delete e (Id f) ?st0 = (r1, st1)"
      by (cases "Files_Delete e (Id f) ?st0")
    from Files_Delete_log[OF D] obtain rep where
      L1: "log st1 = log st @ [Print (''Deleting remote file: '' @ k), Api (FilesDelete (Id f)) rep]"
      by auto
    show ?thesis
    proof (cases r1)
      case (Ok u)
      with Cons.prems f D have "delete_range e lf rf ks st1 = (r, st')" by simp
      from Cons.IH[OF this] obtain evs n where
        E: "log st' = log st1 @ evs"
           "deleted_ids evs = take n (map (\<lambda>k. Id (the (rf k))) (orphans lf rf ks))"
           "r = Ok () \<longrightarrow> deleted_ids evs = map (\<lambda>k. Id (the (rf k))) (orphans lf rf ks)"
        by blast
      let ?evs = "[Print (''Deleting remote file: '' @ k), Api (FilesDelete (Id f)) rep] @ evs"
      have "log st' = log st @ ?evs" using E(1) L1 by simp
      moreover have "deleted_ids ?evs = take (Suc n) (map (\<lambda>k. Id (the (rf k))) (orphans lf rf (k # ks)))"
        using E(2) f by (simp add: o)
      moreover have "r = Ok () \<longrightarrow> deleted_ids ?evs = map (\<lambda>k. Id (the (rf k))) (orphans lf rf (k # ks))"
        using E(3) f by (simp add: o)
      ultimately show ?thesis by blast
    next
      case (Fail x)
      with Cons.prems f D have s: "st' = st1" "r \<noteq> Ok ()" by auto
      let ?evs = "[Print (''Deleting remote file: '' @ k), Api (FilesDelete (Id f)) rep]"
      have "log st' = log st @ ?evs" using s L1 by simp
      moreover have "deleted_ids ?evs = take (Suc 0) (map (\<lambda>k. Id (the (rf k))) (orphans lf rf (k # ks)))"
        using f by (simp add: o)
      ultimately show ?thesis using s(2) by blast
    next
      case OutOfFuel
      with Cons.prems f D have s: "st' = st1" "r \<noteq> Ok ()" by auto
      let ?evs = "[Print (''Deleting remote file: '' @ k), Api (FilesDelete (Id f)) rep]"
      have "log st' = log st @ ?evs" using s L1 by simp
      moreover have "deleted_ids ?evs = take (Suc 0) (map (\<lambda>k. Id (the (rf k))) (orphans lf rf (k # ks)))"
        using f by (simp add: o)
      ultimately show ?thesis using s(2) by blast
    qed
  next
    case False
    then have o: "orphans lf rf (k # ks) = orphans lf rf ks" by (auto simp: orphans_def)
    from False Cons.prems have "delete_range e lf rf ks st = (r, st')"
      by (auto split: option.splits if_splits)
    from Cons.IH[OF this] show ?thesis by (simp add: o)
  qed
qed

lemma walk_fn_Ok_index:
  assumes "walk_fn e l rid rf item lf c st = (Ok u, lf', c', st')"
  shows "dom lf' = dom lf \<union> set (rel_paths e l [item])"
  using assms
  by (cases item)
     (auto simp: walk_fn_def split: option.splits res.splits prod.splits)

lemma rel_paths_Cons: "rel_paths e l (item # items) = rel_paths e l [item] @ rel_paths e l items"
  by (cases item) (auto split: option.splits)

lemma filepath_Walk_Ok_index:
  "filepath_Walk e l rid rf items lf c st = (Ok u, lf', c', st')
     \<Longrightarrow> dom lf' = dom lf \<union> set (rel_paths e l items)"
proof (induction items arbitrary: lf c st)
  case Nil
  then show ?case by simp
next
  case (Cons item items)
  obtain r1 lf1 c1 st1 where W: "walk_fn e l rid rf item lf c st = (r1, lf1, c1, st1)"
    by (cases "walk_fn e l rid rf item lf c st")
  with Cons.prems have r1: "r1 = Ok ()" by (cases r1) auto
  with Cons.prems W have "filepath_Walk e l rid rf items lf1 c1 st1 = (Ok u, lf', c', st')" by simp
  from Cons.IH[OF this] walk_fn_Ok_index[OF W[unfolded r1]]
  show ?case by (subst rel_paths_Cons) auto
qed


lemma orphans_set:
  assumes "distinct ks" "set ks = dom rf"
  shows "distinct (orphans lf rf ks) \<and> set (orphans lf rf ks) = dom rf - dom lf"
  using assms by (auto simp: orphans_def)








lemma announced_mono:
  "announced known evs \<Longrightarrow> set known \<subseteq> set known' \<Longrightarrow> announced known' evs"
proof (induction known evs arbitrary: known' rule: announced.induct)
  case (2 known c t rep evs)
  from "2.prems" have c: "c \<in> set known'" and a: "announced (listed_folders rep @ known) evs"
    by auto
  from "2.prems" have "set (listed_folders rep @ known) \<subseteq> set (listed_folders rep @ known')"
    by auto
  from "2.IH"[OF a this] c show ?case by simp
qed simp_all

lemma announced_append:
  "announced known xs \<Longrightarrow> announced known ys \<Longrightarrow> announced known (xs @ ys)"
proof (induction known xs rule: announced.induct)
  case (2 known c t rep evs)
  have "set known \<subseteq> set (listed_folders rep @ known)" by auto
  with "2.prems"(2) have "announced (listed_folders rep @ known) ys"
    by (rule announced_mono)
  with "2.prems" "2.IH" show ?case by simp
qed simp_all

lemma pending_append: "pending waiting (xs @ ys) = pending (pending waiting xs) ys"
  by (induction waiting xs rule: pending.induct) simp_all

lemma Files_List_log:
  "Files_List e q t st = (r, st') \<Longrightarrow>
     \<exists>rep. log st' = log st @ [Api (FilesList q t) rep] \<and>
       (\<forall>page nxt. r = Ok (page, nxt) \<longrightarrow> rep = Listed page nxt)"
  by (auto simp: Files_List_def Let_def record_call_def split: if_splits)


lemma Files_List_cases:
  assumes "Files_List e q t st = (r, st')"
  obtains (failed) er where "r = Fail er" "log st' = log st @ [Api (FilesList q t) Failed]"
  | (listed) page nxt where "r = Ok (page, nxt)" "log st' = log st @ [Api (FilesList q t) (Listed page nxt)]"
  using assms
  by (auto simp: Files_List_def Let_def record_call_def split: if_splits)

lemma fetch_trace:
  "fetchRemoteFiles n e c path m st = (r, st') \<Longrightarrow>
     \<exists>evs. log st' = log st @ evs \<and> scan_trace c 0 (is_ok r) evs"
  "fetch_pages n e c path t m st = (r, st') \<Longrightarrow>
     \<exists>evs. log st' = log st @ evs \<and> scan_trace c t (is_ok r) evs"
  "fetch_range n e path fs m st = (r, st') \<Longrightarrow>
     \<exists>evs. log st' = log st @ evs \<and> range_trace fs (is_ok r) evs"
proof (induction n e c path m st and n e c path t m st and n e path fs m st
    arbitrary: r st' and r st' and r st' rule: fetchRemoteFiles_fetch_pages_fetch_range.induct)
  case (1 e parentID path remoteFiles st)
  then show ?case by (auto intro: scan_out)
next
  case (2 n e parentID path remoteFiles st)
  then show ?case by simp
next
  case (3 e parentID path pageToken remoteFiles st)
  then show ?case by (auto intro: scan_out)
next
  case (4 n e parentID path pageToken remoteFiles st)
  obtain r1 st1 where L: "Files_List e (InParents parentID) pageToken st = (r1, st1)"
    by (cases "Files_List e (InParents parentID) pageToken st")
  from L show ?case
  proof (cases rule: Files_List_cases)
    case (failed er)
    with "4.prems" L have "r = Fail (Wrapped ''unable to list files'' er)" "st' = st1" by simp_all
    with failed show ?thesis by (auto intro: scan_fail)
  next
    case (listed page nxt)
    obtain r2 st2 where R: "fetch_range n e path page remoteFiles st1 = (r2, st2)"
      by (cases "fetch_range n e path page remoteFiles st1")
    from "4.IH"(1)[OF L[symmetric] listed(1) refl R] obtain evr where
      evr: "log st2 = log st1 @ evr" "range_trace page (is_ok r2) evr" by blast
    show ?thesis
    proof (cases "is_ok r2 \<and> nxt \<noteq> 0")
      case True
      then obtain m2 where r2: "r2 = Ok m2" by (cases r2) auto
      with "4.prems" L listed R True
      have P: "fetch_pages n e parentID path nxt m2 st2 = (r, st')" by simp
      from "4.IH"(2)[OF L[symmetric] listed(1) refl R[symmetric] r2 _ P] True obtain evp where
        evp: "log st' = log st2 @ evp" "scan_trace parentID nxt (is_ok r) evp" by blast
      have "scan_trace parentID pageToken (is_ok r)
              (Api (FilesList (InParents parentID) pageToken) (Listed page nxt) # evr @ evp)"
        using evr(2) True evp(2) r2 by (auto intro: scan_more)
      moreover have "log st' = log st @ Api (FilesList (InParents parentID) pageToken) (Listed page nxt) # evr @ evp"
        using listed(2) evr(1) evp(1) by simp
      ultimately show ?thesis by blast
    next
      case False
      with "4.prems" L listed R have "r = r2" "st' = st2"
        by (cases r2; auto)+
      moreover have "scan_trace parentID pageToken (is_ok r2)
              (Api (FilesList (InParents parentID) pageToken) (Listed page nxt) # evr)"
        using evr(2) False by (auto intro: scan_last)
      moreover have "log st2 = log st @ Api (FilesList (InParents parentID) pageToken) (Listed page nxt) # evr"
        using listed(2) evr(1) by simp
      ultimately show ?thesis by blast
    qed
  qed
next
  case (5 n e path remoteFiles st)
  then show ?case by (auto intro: range_nil)
next
  case (6 e path f rest remoteFiles st)
  then show ?case by (auto intro: range_out)
next
  case (7 n e path f rest remoteFiles st)
  show ?case
  proof (cases "MimeType f = folder_mime")
    case True
    obtain r1 st1 where F: "fetchRemoteFiles n e (Id f) (filepath_Join [path, Name f]) remoteFiles st = (r1, st1)"
      by (cases "fetchRemoteFiles n e (Id f) (filepath_Join [path, Name f]) remoteFiles st")
    from "7.IH"(1)[OF refl True F] obtain ev1 where
      ev1: "log st1 = log st @ ev1" "scan_trace (Id f) 0 (is_ok r1) ev1" by blast
    show ?thesis
    proof (cases r1)
      case (Ok m1)
      with "7.prems" True F have R: "fetch_range n e path rest m1 st1 = (r, st')" by (simp add: Let_def)
      from "7.IH"(2)[OF refl True F[symmetric] Ok R] obtain ev2 where
        ev2: "log st' = log st1 @ ev2" "range_trace rest (is_ok r) ev2" by blast
      have "range_trace (f # rest) (is_ok r) (ev1 @ ev2)"
        using True ev1(2) ev2(2) Ok by (auto intro: range_folder)
      with ev1(1) ev2(1) show ?thesis by auto
    next
      case (Fail x)
      with "7.prems" True F have "r = r1" "st' = st1" by (simp_all add: Let_def)
      with ev1 True Fail show ?thesis by (auto intro: range_stop)
    next
      case OutOfFuel
      with "7.prems" True F have "r = r1" "st' = st1" by (simp_all add: Let_def)
      with ev1 True OutOfFuel show ?thesis by (auto intro: range_stop)
    qed
  next
    case False
    with "7.prems" have "fetch_range n e path rest (remoteFiles(filepath_Join [path, Name f] \<mapsto> f)) st = (r, st')"
      by (simp add: Let_def)
    from "7.IH"(3)[OF refl False this] False show ?thesis by (auto intro: range_file)
  qed
qed


lemma trace_announced:
  "scan_trace c t ok evs \<Longrightarrow> (\<forall>known. c \<in> set known \<longrightarrow> announced known evs)"
  "range_trace fs ok evs \<Longrightarrow>
     (\<forall>known. (\<forall>f\<in>set fs. MimeType f = folder_mime \<longrightarrow> Id f \<in> set known) \<longrightarrow> announced known evs)"
proof (induction rule: scan_trace_range_trace.inducts)
  case (scan_last page ok evr nxt c t)
  then show ?case by simp
next
  case (scan_more page evr nxt c ok evp t)
  show ?case
  proof (intro allI impI)
    fix known assume k: "c \<in> set known"
    let ?k = "listed_folders (Listed page nxt) @ known"
    have "announced ?k evr" using scan_more.IH(1) by simp
    moreover have "announced ?k evp" using scan_more.IH(2) k by simp
    ultimately have "announced ?k (evr @ evp)" by (rule announced_append)
    with k show "announced known (Api (FilesList (InParents c) t) (Listed page nxt) # evr @ evp)"
      by simp
  qed
next
  case (range_folder f evs fs ok evs')
  show ?case
  proof (intro allI impI)
    fix known assume k: "\<forall>g\<in>set (f # fs). MimeType g = folder_mime \<longrightarrow> Id g \<in> set known"
    with range_folder.hyps(1) have "Id f \<in> set known" by simp
    with range_folder.IH(1) have "announced known evs" by simp
    moreover from k range_folder.IH(2) have "announced known evs'" by simp
    ultimately show "announced known (evs @ evs')" by (rule announced_append)
  qed
qed simp_all

lemma trace_pending:
  "scan_trace c t ok evs \<Longrightarrow> ok \<longrightarrow> (\<forall>w. set (pending w evs) \<subseteq> set w - {c})"
  "range_trace fs ok evs \<Longrightarrow> ok \<longrightarrow> (\<forall>w. set (pending w evs) \<subseteq> set w)"
proof (induction rule: scan_trace_range_trace.inducts)
  case (scan_last page ok evr nxt c t)
  show ?case
  proof (intro allI impI)
    fix w assume ok
    with scan_last have n: "nxt = 0" by auto
    from \<open>ok\<close> scan_last.IH have "set (pending (removeAll c w) evr) \<subseteq> set (removeAll c w)"
      by blast
    with n show "set (pending w (Api (FilesList (InParents c) t) (Listed page nxt) # evr)) \<subseteq> set w - {c}"
      by auto
  qed
next
  case (scan_more page evr nxt c ok evp t)
  show ?case
  proof (intro allI impI)
    fix w assume ok
    from scan_more.IH(1) have a: "set (pending (c # w) evr) \<subseteq> set (c # w)"
      by blast
    from \<open>ok\<close> scan_more.IH(2)
    have b: "set (pending (pending (c # w) evr) evp) \<subseteq> set (pending (c # w) evr) - {c}"
      by blast
    from a b have "set (pending (pending (c # w) evr) evp) \<subseteq> set w - {c}" by auto
    with scan_more.hyps(2)
    show "set (pending w (Api (FilesList (InParents c) t) (Listed page nxt) # evr @ evp)) \<subseteq> set w - {c}"
      by (simp add: pending_append)
  qed
next
  case (range_folder f evs fs ok evs')
  show ?case
  proof (intro allI impI)
    fix w assume ok
    from range_folder.IH(1) have a: "set (pending w evs) \<subseteq> set w - {Id f}"
      by blast
    from \<open>ok\<close> range_folder.IH(2) have b: "set (pending (pending w evs) evs') \<subseteq> set (pending w evs)"
      by blast
    from a b show "set (pending w (evs @ evs')) \<subseteq> set w"
      by (auto simp: pending_append)
  qed
qed simp_all

text \<open>
  C6, as the code has it. The scan requests the pages of a folder one after the
  other, the first with the empty token and each later one with the token the reply
  before it named; after each page it scans the folders on that page, each from its
  first page, before it requests the next page. So the listing of a subfolder starts
  after the page that holds it was fetched, which need not be the last page of its
  parent. A scan that returns without error has followed, for every folder it
  listed, the page tokens to the end: the last reply for each names no further page.
\<close>

theorem scan_descends_after_each_page:
  assumes "fetchRemoteFiles fuel e parentID path remoteFiles st = (r, st')"
  shows "scan_trace parentID 0 (is_ok r) (new_events st st')
       \<and> announced [parentID] (new_events st st')
       \<and> (is_ok r \<longrightarrow> pending [] (new_events st st') = [])"
proof -
  from fetch_trace(1)[OF assms] obtain evs where
    evs: "log st' = log st @ evs" "scan_trace parentID 0 (is_ok r) evs" by blast
  have ne: "new_events st st' = evs" by (rule new_events_append[OF evs(1)])
  from trace_announced(1)[OF evs(2)] have "announced [parentID] evs" by simp
  moreover from trace_pending(1)[OF evs(2)] have "is_ok r \<longrightarrow> pending [] evs = []"
    by (metis Diff_empty Diff_insert0 empty_set set_empty subset_empty empty_iff)
  ultimately show ?thesis using evs(2) ne by simp
qed

theorem subfolder_before_last_page_counterexample:
  "api_calls (log (snd (fetchRemoteFiles 9 (example_env\<lparr>page_size := 2\<rparr>) ''root'' [] Map.empty
                          example_state_pages)))
     = [FilesList (InParents ''root'') 0, FilesList (InParents ''d1'') 0,
        FilesList (InParents ''root'') 2]"
  by code_simp

theorem scan_descends_after_each_page_witness:
  "announced [''root'']
     (new_events example_state_pages
        (snd (fetchRemoteFiles 9 (example_env\<lparr>page_size := 2\<rparr>) ''root'' [] Map.empty
                example_state_pages)))
   \<and> pending []
     (new_events example_state_pages
        (snd (fetchRemoteFiles 9 (example_env\<lparr>page_size := 2\<rparr>) ''root'' [] Map.empty
                example_state_pages))) = []"
proof -
  define X where "X = fetchRemoteFiles 9 (example_env\<lparr>page_size := 2\<rparr>) ''root'' [] Map.empty
                example_state_pages"
  have x: "fetchRemoteFiles 9 (example_env\<lparr>page_size := 2\<rparr>) ''root'' [] Map.empty
                example_state_pages = (fst X, snd X)"
    by (simp add: X_def)
  have ok: "is_ok (fst X)" unfolding X_def by code_simp
  from scan_descends_after_each_page [OF x] ok show ?thesis
    unfolding X_def by simp
qed

lemma split_slash_not_Nil [simp]: "split_slash s \<noteq> []"
  by (induction s) (auto split: list.splits)

lemma join_slash_Cons_Cons: "join_slash ((c # x) # xs) = c # join_slash (x # xs)"
  by (cases xs) simp_all

lemma join_split_slash: "join_slash (split_slash s) = s"
proof (induction s)
  case Nil
  then show ?case by simp
next
  case (Cons c cs)
  obtain x xs where sp: "split_slash cs = x # xs" by (cases "split_slash cs") auto
  show ?case
  proof (cases "c = CHR ''/''")
    case True
    with sp Cons show ?thesis by simp
  next
    case False
    with sp Cons show ?thesis by (simp add: join_slash_Cons_Cons)
  qed
qed

lemma split_slash_no_slash: "CHR ''/'' \<notin> set x \<Longrightarrow> split_slash x = [x]"
  by (induction x) auto

lemma split_slash_append: "CHR ''/'' \<notin> set x \<Longrightarrow> split_slash (x @ CHR ''/'' # r) = x # split_slash r"
  by (induction x) auto

lemma split_join_slash:
  "ps \<noteq> [] \<Longrightarrow> \<forall>p\<in>set ps. CHR ''/'' \<notin> set p \<Longrightarrow> split_slash (join_slash ps) = ps"
proof (induction ps rule: join_slash.induct)
  case 1
  then show ?case by simp
next
  case (2 x)
  then show ?case by (simp add: split_slash_no_slash)
next
  case (3 x y ys)
  then show ?case by (simp add: split_slash_append)
qed

lemma split_slash_parts: "x \<in> set (split_slash s) \<Longrightarrow> CHR ''/'' \<notin> set x"
proof (induction s arbitrary: x)
  case Nil
  then show ?case by simp
next
  case (Cons c cs)
  obtain y ys where sp: "split_slash cs = y # ys" by (cases "split_slash cs") auto
  with Cons show ?case by (cases "c = CHR ''/''") auto
qed

lemma join_slash_snoc: "pre \<noteq> [] \<Longrightarrow> join_slash (pre @ [part]) = join_slash pre @ CHR ''/'' # part"
  by (induction pre rule: join_slash.induct) simp_all

lemma foldl_clean_step_plain:
  "list_all plain ps \<Longrightarrow> foldl (clean_step False) acc ps = acc @ ps"
  by (induction ps arbitrary: acc) (auto simp: clean_step_def plain_def)

lemma join_slash_hd: "ps \<noteq> [] \<Longrightarrow> hd ps \<noteq> [] \<Longrightarrow> join_slash ps \<noteq> [] \<and> hd (join_slash ps) = hd (hd ps)"
  by (induction ps rule: join_slash.induct) auto

lemma filepath_Clean_plain:
  assumes "ps \<noteq> []" "list_all plain ps"
  shows "filepath_Clean (join_slash ps) = join_slash ps"
proof -
  from assms have h: "hd ps \<noteq> []" "CHR ''/'' \<notin> set (hd ps)"
    by (cases ps; simp add: plain_def)+
  from h have "hd (hd ps) \<in> set (hd ps)" by simp
  with h have "hd (hd ps) \<noteq> CHR ''/''" by metis
  with assms(1) h join_slash_hd[of ps] have ne: "join_slash ps \<noteq> []" and hd: "hd (join_slash ps) \<noteq> CHR ''/''"
    by auto
  from assms have "\<forall>p\<in>set ps. CHR ''/'' \<notin> set p" by (auto simp: list_all_iff plain_def)
  with assms(1) have sp: "split_slash (join_slash ps) = ps" by (rule split_join_slash)
  show ?thesis
    using ne hd by (simp add: filepath_Clean_def Let_def sp foldl_clean_step_plain[OF assms(2)])
qed

lemma filepath_Join_plain:
  assumes "list_all plain (pre @ [part])"
  shows "filepath_Join [join_slash pre, part] = join_slash (pre @ [part])"
proof (cases "pre = []")
  case True
  from assms have "part \<noteq> []" by (simp add: plain_def)
  with True filepath_Clean_plain[of "[part]"] assms show ?thesis
    by (simp add: filepath_Join_def)
next
  case False
  from assms have "hd pre \<noteq> []" using False by (cases pre) (auto simp: plain_def)
  with False join_slash_hd[of pre] have "join_slash pre \<noteq> []" by simp
  then have "filepath_Join [join_slash pre, part] = filepath_Clean (join_slash pre @ CHR ''/'' # part)"
    by (cases "join_slash pre") (simp_all add: filepath_Join_def)
  also have "\<dots> = filepath_Clean (join_slash (pre @ [part]))"
    by (simp add: join_slash_snoc[OF False])
  also have "\<dots> = join_slash (pre @ [part])"
    by (rule filepath_Clean_plain) (use assms in simp_all)
  finally show ?thesis .
qed

lemma folder_at_trans:
  "folder_at fs c1 p1 c2 p2 \<Longrightarrow> folder_at fs c0 p0 c1 p1 \<Longrightarrow> folder_at fs c0 p0 c2 p2"
  by (induction rule: folder_at.induct) (auto intro: folder_at.intros)

lemma folder_at_first:
  "folder_at fs c pth c' q \<Longrightarrow>
     (c' = c \<and> q = pth) \<or>
     (\<exists>d\<in>set fs. c \<in> set (Parents d) \<and> MimeType d = folder_mime
        \<and> folder_at fs (Id d) (filepath_Join [pth, Name d]) c' q)"
proof (induction rule: folder_at.induct)
  case here
  then show ?case by simp
next
  case (down c1 p1 d)
  from down.IH show ?case
  proof
    assume "c1 = c \<and> p1 = pth"
    with down.hyps have "d \<in> set fs" "c \<in> set (Parents d)" "MimeType d = folder_mime"
      "folder_at fs (Id d) (filepath_Join [pth, Name d]) (Id d) (filepath_Join [p1, Name d])"
      by (auto intro: folder_at.here)
    then show ?thesis by blast
  next
    assume "\<exists>d0\<in>set fs. c \<in> set (Parents d0) \<and> MimeType d0 = folder_mime
        \<and> folder_at fs (Id d0) (filepath_Join [pth, Name d0]) c1 p1"
    then obtain d0 where d0: "d0 \<in> set fs" "c \<in> set (Parents d0)" "MimeType d0 = folder_mime"
        "folder_at fs (Id d0) (filepath_Join [pth, Name d0]) c1 p1" by blast
    from folder_at.down[OF d0(4) down.hyps(2,3,4)] d0(1-3) show ?thesis by blast
  qed
qed

lemma file_at_sub:
  assumes "file_at fs (Id d) (filepath_Join [pth, Name d]) p f"
      and "d \<in> set fs" "c \<in> set (Parents d)" "MimeType d = folder_mime"
  shows "file_at fs c pth p f"
proof -
  have "folder_at fs c pth (Id d) (filepath_Join [pth, Name d])"
    by (rule folder_at.down[OF folder_at.here assms(2-4)])
  with assms(1) show ?thesis
    unfolding file_at_def by (blast intro: folder_at_trans)
qed

lemma file_at_child:
  "f \<in> set fs \<Longrightarrow> c \<in> set (Parents f) \<Longrightarrow> MimeType f \<noteq> folder_mime \<Longrightarrow>
     file_at fs c pth (filepath_Join [pth, Name f]) f"
  unfolding file_at_def by (blast intro: folder_at.here)

lemma file_at_first:
  assumes "file_at fs c pth p f"
  shows "(f \<in> set fs \<and> c \<in> set (Parents f) \<and> MimeType f \<noteq> folder_mime \<and> p = filepath_Join [pth, Name f])
       \<or> (\<exists>d\<in>set fs. c \<in> set (Parents d) \<and> MimeType d = folder_mime
             \<and> file_at fs (Id d) (filepath_Join [pth, Name d]) p f)"
proof -
  from assms obtain c' q where *: "folder_at fs c pth c' q" "f \<in> set fs" "c' \<in> set (Parents f)"
      "MimeType f \<noteq> folder_mime" "p = filepath_Join [q, Name f]"
    unfolding file_at_def by blast
  from folder_at_first[OF *(1)] show ?thesis
  proof
    assume "c' = c \<and> q = pth"
    with * show ?thesis by simp
  next
    assume "\<exists>d\<in>set fs. c \<in> set (Parents d) \<and> MimeType d = folder_mime
        \<and> folder_at fs (Id d) (filepath_Join [pth, Name d]) c' q"
    with *(2-5) show ?thesis unfolding file_at_def by blast
  qed
qed

lemma sound_over_refl: "sound_over fs c pth m m"
  by (simp add: sound_over_def)

lemma sound_over_trans:
  "sound_over fs c pth m m1 \<Longrightarrow> sound_over fs c pth m1 m2 \<Longrightarrow> sound_over fs c pth m m2"
  unfolding sound_over_def by blast

lemma sound_over_sub:
  assumes "sound_over fs (Id d) (filepath_Join [pth, Name d]) m m1"
      and "d \<in> set fs" "c \<in> set (Parents d)" "MimeType d = folder_mime"
  shows "sound_over fs c pth m m1"
  using assms(1) file_at_sub[OF _ assms(2-4)] unfolding sound_over_def by blast

lemma sound_over_upd:
  assumes "f \<in> set fs" "c \<in> set (Parents f)" "MimeType f \<noteq> folder_mime"
  shows "sound_over fs c pth m (m(filepath_Join [pth, Name f] \<mapsto> f))"
  using file_at_child[OF assms, of pth] unfolding sound_over_def by auto

lemma covered_folder:
  "MimeType x = folder_mime \<Longrightarrow>
     covered fs pth m x = (\<forall>p f. file_at fs (Id x) (filepath_Join [pth, Name x]) p f \<longrightarrow> p \<in> dom m)"
  by (simp add: covered_def)

lemma covered_file:
  "MimeType x \<noteq> folder_mime \<Longrightarrow> covered fs pth m x = (filepath_Join [pth, Name x] \<in> dom m)"
  by (simp add: covered_def)

lemma covered_mono:
  assumes "covered fs pth m1 x" "dom m1 \<subseteq> dom m2"
  shows "covered fs pth m2 x"
proof (cases "MimeType x = folder_mime")
  case True
  from assms show ?thesis unfolding covered_folder[OF True] by blast
next
  case False
  from assms show ?thesis unfolding covered_file[OF False] by blast
qed

lemma sound_over_dom: "sound_over fs c pth m m' \<Longrightarrow> dom m \<subseteq> dom m'"
  by (simp add: sound_over_def)

lemma covered_all:
  assumes "\<forall>x\<in>set (filter (matches (InParents c)) fs). covered fs pth m' x"
      and "file_at fs c pth p f"
  shows "p \<in> dom m'"
proof -
  from file_at_first[OF assms(2)] show ?thesis
  proof
    assume *: "f \<in> set fs \<and> c \<in> set (Parents f) \<and> MimeType f \<noteq> folder_mime \<and> p = filepath_Join [pth, Name f]"
    then have "f \<in> set (filter (matches (InParents c)) fs)" by (simp add: matches_def)
    with assms(1) have "covered fs pth m' f" by blast
    with * show ?thesis by (simp add: covered_file)
  next
    assume "\<exists>d\<in>set fs. c \<in> set (Parents d) \<and> MimeType d = folder_mime
             \<and> file_at fs (Id d) (filepath_Join [pth, Name d]) p f"
    then obtain d where d: "d \<in> set fs" "c \<in> set (Parents d)" "MimeType d = folder_mime"
        "file_at fs (Id d) (filepath_Join [pth, Name d]) p f" by blast
    then have "d \<in> set (filter (matches (InParents c)) fs)" by (simp add: matches_def)
    with assms(1) have "covered fs pth m' d" by blast
    then have "\<forall>p f. file_at fs (Id d) (filepath_Join [pth, Name d]) p f \<longrightarrow> p \<in> dom m'"
      unfolding covered_folder[OF d(3)] .
    with d(4) show ?thesis by blast
  qed
qed

lemma Files_List_Ok:
  assumes "Files_List e q t st = (Ok (page, nxt), st')"
  shows "page = take (page_len e) (drop t (filter (matches q) (files st)))"
    and "nxt = (if t + page_len e < length (filter (matches q) (files st)) then t + page_len e else 0)"
    and "files st' = files st"
  using assms by (auto simp: Files_List_def Let_def record_call_def split: if_splits)

lemma page_len_pos: "0 < page_len e"
  by (simp add: page_len_def)


lemma fetch_index:
  "fetchRemoteFiles n e c pth m st = (Ok m', st') \<Longrightarrow>
     sound_over (files st) c pth m m'
     \<and> (\<forall>x\<in>set (filter (matches (InParents c)) (files st)). covered (files st) pth m' x)"
  "fetch_pages n e c pth t m st = (Ok m', st') \<Longrightarrow>
     sound_over (files st) c pth m m'
     \<and> (\<forall>x\<in>set (drop t (filter (matches (InParents c)) (files st))). covered (files st) pth m' x)"
  "fetch_range n e pth xs m st = (Ok m', st') \<Longrightarrow>
     (\<forall>c. (\<forall>x\<in>set xs. x \<in> set (files st) \<and> c \<in> set (Parents x)) \<longrightarrow> sound_over (files st) c pth m m')
     \<and> dom m \<subseteq> dom m'
     \<and> (\<forall>x\<in>set xs. covered (files st) pth m' x)"
proof (induction n e c pth m st and n e c pth t m st and n e pth xs m st
    arbitrary: m' st' and m' st' and m' st' rule: fetchRemoteFiles_fetch_pages_fetch_range.induct)
  case (1 e parentID path remoteFiles st)
  then show ?case by simp
next
  case (2 n e parentID path remoteFiles st)
  from "2.prems" have "fetch_pages n e parentID path 0 remoteFiles st = (Ok m', st')" by simp
  from "2.IH"[OF this] show ?case by simp
next
  case (3 e parentID path pageToken remoteFiles st)
  then show ?case by simp
next
  case (4 n e c pth t m st)
  let ?found = "filter (matches (InParents c)) (files st)"
  obtain r1 st1 where L: "Files_List e (InParents c) t st = (r1, st1)"
    by (cases "Files_List e (InParents c) t st")
  with "4.prems" obtain page nxt where r1: "r1 = Ok (page, nxt)"
    by (cases r1) auto
  note LO = Files_List_Ok[OF L[unfolded r1]]
  obtain r2 st2 where R: "fetch_range n e pth page m st1 = (r2, st2)"
    by (cases "fetch_range n e pth page m st1")
  with "4.prems" L r1 obtain m2 where r2: "r2 = Ok m2"
    by (cases r2) auto
  have st2: "files st2 = files st" using fetch_adds(3)[OF R] LO(3) by simp
  have pg: "\<forall>x\<in>set page. x \<in> set (files st1) \<and> c \<in> set (Parents x)"
  proof
    fix x assume "x \<in> set page"
    with LO(1) have "x \<in> set (drop t ?found)" by (metis in_set_takeD)
    then have "x \<in> set ?found" by (rule in_set_dropD)
    then show "x \<in> set (files st1) \<and> c \<in> set (Parents x)" by (simp add: LO(3) matches_def)
  qed
  from "4.IH"(1)[OF L[symmetric] r1 refl R[unfolded r2]] pg
  have s1: "sound_over (files st) c pth m m2" and d1: "dom m \<subseteq> dom m2"
    and c1: "\<forall>x\<in>set page. covered (files st) pth m2 x"
    by (simp_all add: LO(3))
  show ?case
  proof (cases "nxt = 0")
    case True
    with "4.prems" L r1 R r2 have m': "m' = m2" by simp
    from True LO(2) have "\<not> t + page_len e < length ?found"
      using page_len_pos[of e] by (auto split: if_splits)
    then have "take (page_len e) (drop t ?found) = drop t ?found" by simp
    with LO(1) have "page = drop t ?found" by simp
    with c1 s1 show ?thesis by (simp add: m')
  next
    case False
    with "4.prems" L r1 R r2 have P: "fetch_pages n e c pth nxt m2 st2 = (Ok m', st')" by simp
    from "4.IH"(2)[OF L[symmetric] r1 refl R[symmetric] r2 False P]
    have s2: "sound_over (files st) c pth m2 m'"
      and c2: "\<forall>x\<in>set (drop nxt ?found). covered (files st) pth m' x"
      by (simp_all add: st2)
    from False LO(2) have nxt: "nxt = t + page_len e" by (auto split: if_splits)
    have "drop t ?found = page @ drop nxt ?found"
      unfolding LO(1) nxt by (metis add.commute append_take_drop_id drop_drop)
    moreover from c1 sound_over_dom[OF s2] have "\<forall>x\<in>set page. covered (files st) pth m' x"
      by (blast intro: covered_mono)
    ultimately have "\<forall>x\<in>set (drop t ?found). covered (files st) pth m' x"
      using c2 by auto
    with sound_over_trans[OF s1 s2] show ?thesis by simp
  qed
next
  case (5 n e path remoteFiles st)
  then show ?case by (auto simp: sound_over_refl)
next
  case (6 e path f rest remoteFiles st)
  then show ?case by simp
next
  case (7 n e pth f rest m st)
  let ?q = "filepath_Join [pth, Name f]"
  show ?case
  proof (cases "MimeType f = folder_mime")
    case True
    obtain r1 st1 where F: "fetchRemoteFiles n e (Id f) ?q m st = (r1, st1)"
      by (cases "fetchRemoteFiles n e (Id f) ?q m st")
    with "7.prems" True obtain m1 where r1: "r1 = Ok m1"
      by (cases r1) (auto simp: Let_def)
    have st1: "files st1 = files st" using fetch_adds(1)[OF F] by simp
    from "7.prems" True F r1 have R: "fetch_range n e pth rest m1 st1 = (Ok m', st')"
      by (simp add: Let_def)
    from "7.IH"(1)[OF refl True F[unfolded r1]]
    have s1: "sound_over (files st) (Id f) ?q m m1"
      and k1: "\<forall>x\<in>set (filter (matches (InParents (Id f))) (files st)). covered (files st) ?q m1 x"
      by simp_all
    from "7.IH"(2)[OF refl True F[symmetric] r1 R]
    have s2: "\<forall>c. (\<forall>x\<in>set rest. x \<in> set (files st) \<and> c \<in> set (Parents x))
                \<longrightarrow> sound_over (files st) c pth m1 m'"
      and d2: "dom m1 \<subseteq> dom m'"
      and c2: "\<forall>x\<in>set rest. covered (files st) pth m' x"
      by (simp_all add: st1)
    have "\<forall>p g. file_at (files st) (Id f) ?q p g \<longrightarrow> p \<in> dom m1"
      using covered_all[OF k1] by blast
    then have "covered (files st) pth m1 f" unfolding covered_folder[OF True] .
    then have cf: "covered (files st) pth m' f" using d2 by (rule covered_mono)
    have snd: "sound_over (files st) c pth m m'"
      if "\<forall>x\<in>set (f # rest). x \<in> set (files st) \<and> c \<in> set (Parents x)" for c
    proof -
      from that have "f \<in> set (files st)" "c \<in> set (Parents f)" by simp_all
      from sound_over_sub[OF s1 this True] have "sound_over (files st) c pth m m1" .
      moreover from that s2 have "sound_over (files st) c pth m1 m'" by simp
      ultimately show ?thesis by (rule sound_over_trans)
    qed
    from sound_over_dom[OF s1] d2 have "dom m \<subseteq> dom m'" by blast
    with snd cf c2 show ?thesis by simp
  next
    case False
    let ?m1 = "m(?q \<mapsto> f)"
    from "7.prems" False have R: "fetch_range n e pth rest ?m1 st = (Ok m', st')"
      by (simp add: Let_def)
    from "7.IH"(3)[OF refl False R]
    have s2: "\<forall>c. (\<forall>x\<in>set rest. x \<in> set (files st) \<and> c \<in> set (Parents x))
                \<longrightarrow> sound_over (files st) c pth ?m1 m'"
      and d2: "dom ?m1 \<subseteq> dom m'"
      and c2: "\<forall>x\<in>set rest. covered (files st) pth m' x"
      by (simp_all add: fun_upd_def)
    have "covered (files st) pth ?m1 f" unfolding covered_file[OF False] by simp
    then have cf: "covered (files st) pth m' f" using d2 by (rule covered_mono)
    have snd: "sound_over (files st) c pth m m'"
      if "\<forall>x\<in>set (f # rest). x \<in> set (files st) \<and> c \<in> set (Parents x)" for c
    proof -
      from that have "f \<in> set (files st)" "c \<in> set (Parents f)" by simp_all
      from sound_over_upd[OF this False] have "sound_over (files st) c pth m ?m1" .
      moreover from that s2 have "sound_over (files st) c pth ?m1 m'" by simp
      ultimately show ?thesis by (rule sound_over_trans)
    qed
    from d2 have "dom m \<subseteq> dom m'" by auto
    with snd cf c2 show ?thesis by simp
  qed
qed

lemma scan_sound:
  assumes "fetchRemoteFiles n e c [] Map.empty st = (Ok m, st')" "m p = Some f"
  shows "file_at (files st) c [] p f"
  using fetch_index(1)[OF assms(1)] assms(2) unfolding sound_over_def by auto

lemma scan_complete:
  assumes "fetchRemoteFiles n e c pth m0 st = (Ok m, st')" "file_at (files st) c pth p f"
  shows "p \<in> dom m"
  using fetch_index(1)[OF assms(1)] covered_all[OF _ assms(2)] by blast

lemma file_at_not_folder: "file_at fs c pth p f \<Longrightarrow> MimeType f \<noteq> folder_mime \<and> f \<in> set fs"
  unfolding file_at_def by blast

text \<open>
  C7, as the code has it. The scan enters no folder in the remote index: every entry
  is an object that is not a folder, at its path. So a relative path at which the
  remote store holds a folder and nothing else is absent from the index, and the
  decision for a local file at that path is the one for an absent path, the upload,
  with no comparison of digests. A local directory is no entry of the walk's index:
  the callback returns for it with nothing done.
\<close>

theorem folders_are_not_indexed:
  assumes "fetchRemoteFiles fuel e remoteFolderID [] Map.empty st = (Ok remoteFiles, st1)"
  shows "(\<forall>p f. remoteFiles p = Some f \<longrightarrow>
            MimeType f \<noteq> folder_mime \<and> file_at (files st) remoteFolderID [] p f)
       \<and> (\<forall>p. (\<forall>f. \<not> file_at (files st) remoteFolderID [] p f) \<longrightarrow>
            remoteFiles p = None
            \<and> (\<forall>filePath checksum folderCache s.
                 uploadOrUpdateFile e filePath p checksum remoteFiles remoteFolderID folderCache s
                   = uploadFile e filePath p remoteFolderID folderCache
                       (print (''Uploading new file: '' @ p) s)))
       \<and> (\<forall>localDir path localFiles folderCache s.
            walk_fn e localDir remoteFolderID remoteFiles (WalkDir path) localFiles folderCache s
              = (Ok (), localFiles, folderCache, s))"
proof (intro conjI allI impI)
  fix p f assume "remoteFiles p = Some f"
  from scan_sound[OF assms this] show "MimeType f \<noteq> folder_mime" "file_at (files st) remoteFolderID [] p f"
    by (simp_all add: file_at_not_folder)
next
  fix p assume none: "\<forall>f. \<not> file_at (files st) remoteFolderID [] p f"
  show n: "remoteFiles p = None"
  proof (cases "remoteFiles p")
    case (Some f)
    from scan_sound[OF assms this] none show ?thesis by blast
  qed simp
  fix filePath checksum folderCache s
  show "uploadOrUpdateFile e filePath p checksum remoteFiles remoteFolderID folderCache s
          = uploadFile e filePath p remoteFolderID folderCache (print (''Uploading new file: '' @ p) s)"
    by (simp add: uploadOrUpdateFile_def n)
next
  fix localDir path localFiles folderCache s
  show "walk_fn e localDir remoteFolderID remoteFiles (WalkDir path) localFiles folderCache s
              = (Ok (), localFiles, folderCache, s)"
    by (simp add: walk_fn_def)
qed

theorem remote_folder_at_file_path_counterexample:
  "take 3 (api_calls (log (snd (syncFiles 5 example_env ''/data'' ''root'' example_state_folder))))
     = [FilesList (InParents ''root'') 0, FilesList (InParents ''d1'') 0,
        FilesCreate \<lparr>Id = [], Name = ''a.txt'', MimeType = [], Md5Checksum = [], Parents = [''root'']\<rparr>
          (Some ''alpha'')]"
  by code_simp

theorem folders_are_not_indexed_witness:
  "\<exists>remoteFiles st1.
      fetchRemoteFiles 5 example_env ''root'' [] Map.empty example_state_folder = (Ok remoteFiles, st1)
    \<and> remoteFiles ''a.txt'' = None
    \<and> uploadOrUpdateFile example_env ''/data/a.txt'' ''a.txt'' ''md5-alpha'' remoteFiles ''root''
         Map.empty st1
        = uploadFile example_env ''/data/a.txt'' ''a.txt'' ''root'' Map.empty
            (print (''Uploading new file: '' @ ''a.txt'') st1)"
proof -
  have "\<exists>remoteFiles st1.
      fetchRemoteFiles 5 example_env ''root'' [] Map.empty example_state_folder = (Ok remoteFiles, st1)"
    by (simp add: run_defs example_defs example_state_folder_def eval_nat_numeral)
  then obtain remoteFiles st1 where
    h: "fetchRemoteFiles 5 example_env ''root'' [] Map.empty example_state_folder = (Ok remoteFiles, st1)"
    by (elim exE) (rule that)
  have none: "\<forall>f. \<not> file_at (files example_state_folder) ''root'' [] ''a.txt'' f"
    by (auto simp: file_at_def example_state_folder_def example_root_def)
  from folders_are_not_indexed [OF h] none
  have "remoteFiles ''a.txt'' = None
    \<and> uploadOrUpdateFile example_env ''/data/a.txt'' ''a.txt'' ''md5-alpha'' remoteFiles ''root''
         Map.empty st1
        = uploadFile example_env ''/data/a.txt'' ''a.txt'' ''root'' Map.empty
            (print (''Uploading new file: '' @ ''a.txt'') st1)"
    by blast
  with h show ?thesis by (intro exI conjI) (assumption | erule conjunct1 | erule conjunct2)+
qed

lemma folder_at_mono:
  "folder_at fs c0 p0 c p \<Longrightarrow> set fs \<subseteq> set fs' \<Longrightarrow> folder_at fs' c0 p0 c p"
  by (induction rule: folder_at.induct) (auto intro: folder_at.intros)

lemma file_at_mono:
  "file_at fs c0 p0 p f \<Longrightarrow> set fs \<subseteq> set fs' \<Longrightarrow> file_at fs' c0 p0 p f"
  unfolding file_at_def by (blast intro: folder_at_mono)

lemma folder_at_known:
  "folder_at fs c0 p0 c p \<Longrightarrow> c = c0 \<or> c \<in> Id ` set fs"
  by (induction rule: folder_at.induct) auto

text \<open>Adding an object that is not a folder.\<close>

lemma folder_at_add_file:
  assumes "MimeType g \<noteq> folder_mime"
  shows "folder_at (fs @ [g]) c0 p0 c p \<longleftrightarrow> folder_at fs c0 p0 c p"
proof
  assume "folder_at (fs @ [g]) c0 p0 c p"
  then show "folder_at fs c0 p0 c p"
  proof (induction rule: folder_at.induct)
    case here
    show ?case by (rule folder_at.here)
  next
    case (down c p d)
    with assms have "d \<in> set fs" by auto
    with down show ?case by (auto intro: folder_at.down)
  qed
next
  assume "folder_at fs c0 p0 c p"
  then show "folder_at (fs @ [g]) c0 p0 c p" by (rule folder_at_mono) auto
qed

lemma file_at_add_file:
  assumes "MimeType g \<noteq> folder_mime"
  shows "file_at (fs @ [g]) c0 p0 p f \<longleftrightarrow>
           file_at fs c0 p0 p f
           \<or> (f = g \<and> (\<exists>c q. folder_at fs c0 p0 c q \<and> c \<in> set (Parents g) \<and> p = filepath_Join [q, Name g]))"
  unfolding file_at_def folder_at_add_file[OF assms] using assms by auto

text \<open>Adding a folder under an id that no object of the store has as a parent.\<close>

lemma folder_at_add_folder_old:
  assumes "\<forall>x\<in>set fs. Id g \<notin> set (Parents x)" "Id g \<notin> set (Parents g)"
      and "folder_at (fs @ [g]) c0 p0 c p" "c \<noteq> Id g"
  shows "folder_at fs c0 p0 c p"
  using assms(3,4)
proof (induction rule: folder_at.induct)
  case here
  show ?case by (rule folder_at.here)
next
  case (down c p d)
  from down.prems down.hyps(2) have d: "d \<in> set fs" by auto
  with assms(1) down.hyps(3) have "c \<noteq> Id g" by auto
  with down.IH have "folder_at fs c0 p0 c p" by simp
  from folder_at.down[OF this d down.hyps(3,4)] show ?case .
qed

lemma file_at_add_folder:
  assumes "\<forall>x\<in>set fs. Id g \<notin> set (Parents x)" "Id g \<notin> set (Parents g)"
      and "MimeType g = folder_mime"
  shows "file_at (fs @ [g]) c0 p0 p f \<longleftrightarrow> file_at fs c0 p0 p f"
proof
  assume "file_at (fs @ [g]) c0 p0 p f"
  then obtain c q where *: "folder_at (fs @ [g]) c0 p0 c q" "f \<in> set (fs @ [g])" "c \<in> set (Parents f)"
      "MimeType f \<noteq> folder_mime" "p = filepath_Join [q, Name f]"
    unfolding file_at_def by blast
  from *(2,4) assms(3) have f: "f \<in> set fs" by auto
  with assms(1) *(3) have "c \<noteq> Id g" by auto
  from folder_at_add_folder_old[OF assms(1,2) *(1) this] f *(3-5)
  show "file_at fs c0 p0 p f" unfolding file_at_def by blast
next
  assume "file_at fs c0 p0 p f"
  then show "file_at (fs @ [g]) c0 p0 p f" by (rule file_at_mono) auto
qed

text \<open>Changing digests only.\<close>

lemma folder_at_map:
  assumes "\<And>f. Id (u f) = Id f \<and> Name (u f) = Name f \<and> Parents (u f) = Parents f
               \<and> MimeType (u f) = MimeType f"
  shows "folder_at (map u fs) c0 p0 c p \<longleftrightarrow> folder_at fs c0 p0 c p"
proof
  assume "folder_at (map u fs) c0 p0 c p"
  then show "folder_at fs c0 p0 c p"
  proof (induction rule: folder_at.induct)
    case here
    show ?case by (rule folder_at.here)
  next
    case (down c p d)
    from down.hyps(2) obtain d0 where d0: "d0 \<in> set fs" "d = u d0" by auto
    with down.hyps(3,4) assms[of d0] have "c \<in> set (Parents d0)" "MimeType d0 = folder_mime" by simp_all
    from folder_at.down[OF down.IH d0(1) this] d0(2) assms[of d0] show ?case by simp
  qed
next
  assume "folder_at fs c0 p0 c p"
  then show "folder_at (map u fs) c0 p0 c p"
  proof (induction rule: folder_at.induct)
    case here
    show ?case by (rule folder_at.here)
  next
    case (down c p d)
    from down.hyps(2) have "u d \<in> set (map u fs)" by simp
    moreover from down.hyps(3,4) assms[of d] have "c \<in> set (Parents (u d))" "MimeType (u d) = folder_mime"
      by simp_all
    ultimately have "folder_at (map u fs) c0 p0 (Id (u d)) (filepath_Join [p, Name (u d)])"
      by (rule folder_at.down[OF down.IH])
    with assms[of d] show ?case by simp
  qed
qed

lemma file_at_map:
  assumes "\<And>f. Id (u f) = Id f \<and> Name (u f) = Name f \<and> Parents (u f) = Parents f
               \<and> MimeType (u f) = MimeType f"
  shows "file_at (map u fs) c0 p0 p f' \<longleftrightarrow> (\<exists>f. file_at fs c0 p0 p f \<and> f' = u f)"
  unfolding file_at_def folder_at_map[of u, OF assms]
  using assms by (auto simp: image_iff) metis+

text \<open>Removing the objects of one id, none of them a folder.\<close>

lemma folder_at_remove:
  assumes "\<forall>x\<in>set fs. Id x = i \<longrightarrow> MimeType x \<noteq> folder_mime"
  shows "folder_at (filter (\<lambda>f. Id f \<noteq> i) fs) c0 p0 c p \<longleftrightarrow> folder_at fs c0 p0 c p"
proof
  assume "folder_at (filter (\<lambda>f. Id f \<noteq> i) fs) c0 p0 c p"
  then show "folder_at fs c0 p0 c p" by (rule folder_at_mono) auto
next
  assume "folder_at fs c0 p0 c p"
  then show "folder_at (filter (\<lambda>f. Id f \<noteq> i) fs) c0 p0 c p"
  proof (induction rule: folder_at.induct)
    case here
    show ?case by (rule folder_at.here)
  next
    case (down c p d)
    with assms have "d \<in> set (filter (\<lambda>f. Id f \<noteq> i) fs)" by auto
    from folder_at.down[OF down.IH this down.hyps(3,4)] show ?case .
  qed
qed

lemma file_at_remove:
  assumes "\<forall>x\<in>set fs. Id x = i \<longrightarrow> MimeType x \<noteq> folder_mime"
  shows "file_at (filter (\<lambda>f. Id f \<noteq> i) fs) c0 p0 p f \<longleftrightarrow> file_at fs c0 p0 p f \<and> Id f \<noteq> i"
  unfolding file_at_def folder_at_remove[OF assms] by auto



lemma foldr_max_ge: "x \<in> set xs \<Longrightarrow> x \<le> foldr max xs (0::nat)"
  by (induction xs) auto

lemma fresh_id_new: "x \<in> set (known_ids st) \<Longrightarrow> fresh_id st \<noteq> x"
proof
  assume x: "x \<in> set (known_ids st)" and eq: "fresh_id st = x"
  from x have "length x \<in> set (map length (known_ids st))" by simp
  then have "length x \<le> foldr max (map length (known_ids st)) 0" by (rule foldr_max_ge)
  moreover have "length (fresh_id st) = Suc (foldr max (map length (known_ids st)) 0)"
    by (simp add: fresh_id_def)
  ultimately show False using eq by simp
qed

lemma fresh_id_not_id:
  assumes "f \<in> set (files st)"
  shows "Id f \<noteq> fresh_id st"
proof -
  from assms have "Id f \<in> set (known_ids st)" by (auto simp: known_ids_def)
  from fresh_id_new[OF this] show ?thesis by simp
qed

lemma fresh_id_not_parent:
  assumes "f \<in> set (files st)"
  shows "fresh_id st \<notin> set (Parents f)"
proof
  assume "fresh_id st \<in> set (Parents f)"
  with assms have "fresh_id st \<in> set (known_ids st)" by (auto simp: known_ids_def)
  from fresh_id_new[OF this] show False by simp
qed

lemma fresh_id_not_root:
  assumes "root_known (files st) root"
  shows "root \<noteq> fresh_id st"
proof -
  from assms have "root \<in> set (known_ids st)" by (simp add: known_ids_def root_known_def)
  from fresh_id_new[OF this] show ?thesis by simp
qed

lemma Files_Create_Ok:
  assumes "Files_Create e f media st = (Ok g, st')"
  shows "files st' = files st @ [g]" "Id g = fresh_id st" "Name g = Name f"
    "MimeType g = MimeType f" "Parents g = Parents f"
    "\<And>c. media = Some (Data c) \<Longrightarrow> Md5Checksum g = md5hex e c"
  using assms
  by (auto simp: Files_Create_def Let_def record_call_def
      split: option.splits local_file.splits if_splits)

lemma Files_Update_Ok:
  assumes "Files_Update e i media st = (Ok u, st')"
  shows "\<exists>c. media = Data c
     \<and> files st' = map (\<lambda>f. if Id f = i then f\<lparr>Md5Checksum := md5hex e c\<rparr> else f) (files st)"
  using assms
  by (auto simp: Files_Update_def record_call_def split: local_file.splits if_splits)

lemma Files_Delete_Ok:
  assumes "Files_Delete e i st = (Ok u, st')"
  shows "files st' = filter (\<lambda>f. Id f \<noteq> i) (files st)"
  using assms by (auto simp: Files_Delete_def record_call_def split: if_splits)




lemma createOrGetFolder_Ok:
  assumes "createOrGetFolder e n p st = (Ok i, st')"
  shows "(files st' = files st
          \<and> (\<exists>d\<in>set (files st). Id d = i \<and> Name d = n \<and> p \<in> set (Parents d) \<and> MimeType d = folder_mime))
       \<or> (\<exists>g. files st' = files st @ [g] \<and> Id g = i \<and> i = fresh_id st \<and> Name g = n
              \<and> Parents g = [p] \<and> MimeType g = folder_mime
              \<and> filter (matches (FolderNamed n p)) (files st) = [])"
proof -
  obtain r1 st1 where L: "Files_List e (FolderNamed n p) 0 st = (r1, st1)"
    by (cases "Files_List e (FolderNamed n p) 0 st")
  with assms obtain page nxt where r1: "r1 = Ok (page, nxt)"
    by (cases r1) (auto simp: createOrGetFolder_def)
  note LO = Files_List_Ok[OF L[unfolded r1]]
  have fid: "fresh_id st1 = fresh_id st" by (simp add: fresh_id_def known_ids_def LO(3))
  show ?thesis
  proof (cases page)
    case Nil
    let ?f = "\<lparr>Id = [], Name = n, MimeType = folder_mime, Md5Checksum = [], Parents = [p]\<rparr>"
    obtain r2 st2 where C: "Files_Create e ?f None st1 = (r2, st2)"
      by (cases "Files_Create e ?f None st1")
    from assms L r1 Nil C have "\<exists>g. r2 = Ok g \<and> i = Id g \<and> st' = st2"
      by (cases r2) (simp_all add: createOrGetFolder_def)
    then obtain g where r2: "r2 = Ok g" and i: "i = Id g" and st': "st' = st2" by blast
    note CO = Files_Create_Ok[OF C[unfolded r2]]
    have none: "filter (matches (FolderNamed n p)) (files st) = []"
    proof (cases "filter (matches (FolderNamed n p)) (files st)")
      case (Cons a as)
      with LO(1) Nil page_len_pos[of e] show ?thesis
        by (cases "page_len e") simp_all
    qed simp
    have "files st' = files st @ [g]" using CO(1) LO(3) st' by simp
    moreover have "Id g = i" using i by simp
    moreover have "i = fresh_id st" using i CO(2) fid by simp
    moreover have "Name g = n" "Parents g = [p]" "MimeType g = folder_mime" using CO(3-5) by simp_all
    ultimately show ?thesis using none by blast
  next
    case (Cons d ds)
    with assms L r1 have i: "i = Id d" and st': "st' = st1"
      by (simp_all add: createOrGetFolder_def)
    from Cons LO(1) have "d \<in> set (take (page_len e) (filter (matches (FolderNamed n p)) (files st)))"
      by simp
    then have "d \<in> set (filter (matches (FolderNamed n p)) (files st))"
      by (rule in_set_takeD)
    then have d: "d \<in> set (files st)" "Name d = n" "p \<in> set (Parents d)" "MimeType d = folder_mime"
      by (simp_all add: matches_def)
    have "files st' = files st" using st' LO(3) by simp
    with d i show ?thesis by blast
  qed
qed




lemma tree_like_one_path:
  assumes "tree_like fs root" "file_at fs root [] p f" "file_at fs root [] q f"
  shows "p = q"
proof -
  from assms(2) obtain c pp where 1: "folder_at fs root [] c pp" "f \<in> set fs" "c \<in> set (Parents f)"
      "p = filepath_Join [pp, Name f]" unfolding file_at_def by blast
  from assms(3) obtain c' pp' where 2: "folder_at fs root [] c' pp'" "c' \<in> set (Parents f)"
      "q = filepath_Join [pp', Name f]" unfolding file_at_def by blast
  from assms(1) 1(2) have "length (Parents f) \<le> 1" unfolding tree_like_def by blast
  with 1(3) 2(2) have "c = c'" by (cases "Parents f") auto
  with assms(1) 1(1) 2(1) have "pp = pp'" unfolding tree_like_def by blast
  with 1(4) 2(3) show ?thesis by simp
qed

lemma tree_like_same_id:
  assumes "tree_like fs root" "f \<in> set fs" "g \<in> set fs" "Id f = Id g"
  shows "f = g"
proof -
  from assms(1) have "inj_on Id (set fs)" unfolding tree_like_def by (simp add: distinct_map)
  with assms(2-4) show ?thesis by (auto dest: inj_onD)
qed

lemma root_known_mono: "root_known fs root \<Longrightarrow> set fs \<subseteq> set fs' \<Longrightarrow> root_known fs' root"
  unfolding root_known_def by auto

lemma root_known_map:
  assumes "\<And>f. Id (u f) = Id f \<and> Parents (u f) = Parents f"
  shows "root_known (map u fs) root \<longleftrightarrow> root_known fs root"
  unfolding root_known_def using assms by (auto simp: image_iff)

lemma tree_like_add_folder:
  assumes t: "tree_like fs root"
      and pid: "folder_at fs root [] pid pp"
      and fresh: "\<forall>x\<in>set fs. Id x \<noteq> Id g \<and> Id g \<notin> set (Parents x)" "Id g \<noteq> root"
      and g: "Parents g = [pid]" "MimeType g = folder_mime"
  shows "tree_like (fs @ [g]) root"
    and "folder_at (fs @ [g]) root [] (Id g) (filepath_Join [pp, Name g])"
    and "\<And>p. folder_at (fs @ [g]) root [] (Id g) p \<Longrightarrow> p = filepath_Join [pp, Name g]"
proof -
  from folder_at_known[OF pid] fresh have pidg: "pid \<noteq> Id g" by auto
  with g have self: "Id g \<notin> set (Parents g)" by simp
  from fresh have nopar: "\<forall>x\<in>set fs. Id g \<notin> set (Parents x)" by blast
  have old: "folder_at fs root [] c p" if "folder_at (fs @ [g]) root [] c p" "c \<noteq> Id g" for c p
    using folder_at_add_folder_old[OF nopar self that] .
  have "folder_at (fs @ [g]) root [] pid pp" using pid by (rule folder_at_mono) auto
  from folder_at.down[OF this, of g] g
  show at: "folder_at (fs @ [g]) root [] (Id g) (filepath_Join [pp, Name g])" by simp
  show uniq: "p = filepath_Join [pp, Name g]" if "folder_at (fs @ [g]) root [] (Id g) p" for p
    using that
  proof (cases rule: folder_at.cases)
    case here
    with fresh(2) show ?thesis by simp
  next
    case (down c1 p1 d)
    from down(1,4) fresh(1) have "d = g" by auto
    with down(5) g have "c1 = pid" by simp
    with down(3) pidg have "folder_at fs root [] pid p1" by (auto intro: old)
    with t pid have "p1 = pp" unfolding tree_like_def by blast
    with down(2) \<open>d = g\<close> show ?thesis by simp
  qed
  have a: "distinct (map Id (fs @ [g]))" using t fresh(1) unfolding tree_like_def by auto
  have b: "\<forall>f\<in>set (fs @ [g]). length (Parents f) \<le> 1" using t g unfolding tree_like_def by auto
  have c: "p = q" if "folder_at (fs @ [g]) root [] c p" "folder_at (fs @ [g]) root [] c q" for c p q
  proof (cases "c = Id g")
    case True
    with that have "p = filepath_Join [pp, Name g]" "q = filepath_Join [pp, Name g]"
      by (auto intro: uniq)
    then show ?thesis by simp
  next
    case False
    with that old have "folder_at fs root [] c p" "folder_at fs root [] c q" by blast+
    with t show ?thesis unfolding tree_like_def by blast
  qed
  from a b c show "tree_like (fs @ [g]) root" unfolding tree_like_def by blast
qed

lemma tree_like_add_file:
  assumes "tree_like fs root" "\<forall>x\<in>set fs. Id x \<noteq> Id g" "length (Parents g) \<le> 1"
      and "MimeType g \<noteq> folder_mime"
  shows "tree_like (fs @ [g]) root"
  using assms unfolding tree_like_def folder_at_add_file[OF assms(4)] by auto

lemma tree_like_map:
  assumes "tree_like fs root"
      and u: "\<And>f. Id (u f) = Id f \<and> Name (u f) = Name f \<and> Parents (u f) = Parents f
               \<and> MimeType (u f) = MimeType f"
  shows "tree_like (map u fs) root"
proof -
  have "Id \<circ> u = Id" using u by (simp add: fun_eq_iff)
  then have "map Id (map u fs) = map Id fs" by simp
  with assms(1) show ?thesis
    unfolding tree_like_def folder_at_map[of u, OF u] using u by (auto simp del: map_map)
qed

lemma tree_like_remove:
  assumes "tree_like fs root" "\<forall>x\<in>set fs. Id x = i \<longrightarrow> MimeType x \<noteq> folder_mime"
  shows "tree_like (filter (\<lambda>f. Id f \<noteq> i) fs) root"
  using assms(1) unfolding tree_like_def folder_at_remove[OF assms(2)]
  by (auto simp: distinct_map_filter)


lemma walk_invI:
  assumes "tree_like fs root" "root_known fs root"
      and "\<And>k i. fc k = Some i \<Longrightarrow> folder_at fs root [] i k"
      and "\<And>p f. file_at fs root [] p f \<Longrightarrow>
             lf p = Some (Md5Checksum f) \<or> (lf p = None \<and> m0 p = Some f)"
      and "\<And>p. lf p \<noteq> None \<Longrightarrow> \<exists>f. file_at fs root [] p f"
      and "\<And>q f0. m0 q = Some f0 \<Longrightarrow> \<exists>f. file_at fs root [] q f \<and> Id f = Id f0"
  shows "walk_inv root m0 lf fc fs"
  unfolding walk_inv_def using assms by blast

lemma walk_invD:
  assumes "walk_inv root m0 lf fc fs"
  shows "tree_like fs root" "root_known fs root"
    and "\<And>k i. fc k = Some i \<Longrightarrow> folder_at fs root [] i k"
    and "\<And>p f. file_at fs root [] p f \<Longrightarrow>
             lf p = Some (Md5Checksum f) \<or> (lf p = None \<and> m0 p = Some f)"
    and "\<And>p. lf p \<noteq> None \<Longrightarrow> \<exists>f. file_at fs root [] p f"
    and "\<And>q f0. m0 q = Some f0 \<Longrightarrow> \<exists>f. file_at fs root [] q f \<and> Id f = Id f0"
  using assms unfolding walk_inv_def by blast+

lemma walk_inv_same_id:
  assumes "walk_inv root m0 lf fc fs" "file_at fs root [] p f" "m0 q = Some f0" "Id f = Id f0"
  shows "p = q"
proof -
  note D = walk_invD[OF assms(1)]
  from D(6)[OF assms(3)] obtain f1 where f1: "file_at fs root [] q f1" "Id f1 = Id f0" by blast
  from assms(2) f1(1) have "f \<in> set fs" "f1 \<in> set fs" by (simp_all add: file_at_not_folder)
  from tree_like_same_id[OF D(1) this] assms(4) f1(2) have "f = f1" by simp
  with tree_like_one_path[OF D(1) assms(2)] f1(1) show ?thesis by simp
qed

lemma walk_inv_cache:
  assumes "walk_inv root m0 lf fc fs" "folder_at fs root [] i k"
  shows "walk_inv root m0 lf (fc(k \<mapsto> i)) fs"
proof (rule walk_invI)
  note D = walk_invD[OF assms(1)]
  show "tree_like fs root" "root_known fs root" by (rule D)+
  show "folder_at fs root [] j k'" if "(fc(k \<mapsto> i)) k' = Some j" for k' j
    using that assms(2) D(3) by (cases "k' = k") auto
  show "lf p = Some (Md5Checksum f) \<or> (lf p = None \<and> m0 p = Some f)" if "file_at fs root [] p f" for p f
    using that by (rule D(4))
  show "\<exists>f. file_at fs root [] p f" if "lf p \<noteq> None" for p using that by (rule D(5))
  show "\<exists>f. file_at fs root [] q f \<and> Id f = Id f0" if "m0 q = Some f0" for q f0 using that by (rule D(6))
qed

lemma walk_inv_add_folder:
  assumes inv: "walk_inv root m0 lf fc fs"
      and pid: "folder_at fs root [] pid pp"
      and fresh: "\<forall>x\<in>set fs. Id x \<noteq> Id g \<and> Id g \<notin> set (Parents x)" "Id g \<noteq> root"
      and g: "Parents g = [pid]" "MimeType g = folder_mime"
  shows "walk_inv root m0 lf (fc(filepath_Join [pp, Name g] \<mapsto> Id g)) (fs @ [g])"
proof -
  note D = walk_invD[OF inv]
  note T = tree_like_add_folder[OF D(1) pid fresh g]
  from folder_at_known[OF pid] fresh have "pid \<noteq> Id g" by auto
  with g have self: "Id g \<notin> set (Parents g)" by simp
  from fresh have nopar: "\<forall>x\<in>set fs. Id g \<notin> set (Parents x)" by blast
  note F = file_at_add_folder[OF nopar self g(2)]
  have "walk_inv root m0 lf fc (fs @ [g])"
  proof (rule walk_invI)
    show "tree_like (fs @ [g]) root" by (rule T(1))
    show "root_known (fs @ [g]) root" using D(2) by (rule root_known_mono) auto
    show "folder_at (fs @ [g]) root [] i k" if "fc k = Some i" for k i
      using D(3)[OF that] by (rule folder_at_mono) auto
    show "lf p = Some (Md5Checksum f) \<or> (lf p = None \<and> m0 p = Some f)"
      if "file_at (fs @ [g]) root [] p f" for p f
      using that D(4) unfolding F by blast
    show "\<exists>f. file_at (fs @ [g]) root [] p f" if "lf p \<noteq> None" for p
      using D(5)[OF that] unfolding F .
    show "\<exists>f. file_at (fs @ [g]) root [] q f \<and> Id f = Id f0" if "m0 q = Some f0" for q f0
      using D(6)[OF that] unfolding F .
  qed
  from walk_inv_cache[OF this T(2)] show ?thesis .
qed


lemma walk_inv_skip:
  assumes inv: "walk_inv root m0 lf fc fs"
      and rp: "lf rp = None" "m0 rp = Some f0" "Md5Checksum f0 = ck"
  shows "walk_inv root m0 (lf(rp \<mapsto> ck)) fc fs"
proof (rule walk_invI)
  note D = walk_invD[OF inv]
  show "tree_like fs root" "root_known fs root" by (rule D)+
  show "folder_at fs root [] i k" if "fc k = Some i" for k i using that by (rule D(3))
  show "(lf(rp \<mapsto> ck)) p = Some (Md5Checksum f) \<or> ((lf(rp \<mapsto> ck)) p = None \<and> m0 p = Some f)"
    if "file_at fs root [] p f" for p f
  proof (cases "p = rp")
    case True
    with D(4)[OF that] rp have "f = f0" by auto
    with True rp(3) show ?thesis by simp
  next
    case False
    with D(4)[OF that] show ?thesis by simp
  qed
  show "\<exists>f. file_at fs root [] p f" if "(lf(rp \<mapsto> ck)) p \<noteq> None" for p
  proof (cases "p = rp")
    case True
    with D(6)[OF rp(2)] show ?thesis by blast
  next
    case False
    with that D(5)[of p] show ?thesis by simp
  qed
  show "\<exists>f. file_at fs root [] q f \<and> Id f = Id f0" if "m0 q = Some f0" for q f0 using that by (rule D(6))
qed

lemma walk_inv_update:
  assumes inv: "walk_inv root m0 lf fc fs"
      and rp: "lf rp = None" "m0 rp = Some f0"
  shows "walk_inv root m0 (lf(rp \<mapsto> h)) fc
           (map (\<lambda>f. if Id f = Id f0 then f\<lparr>Md5Checksum := h\<rparr> else f) fs)"
proof (rule walk_invI)
  note D = walk_invD[OF inv]
  let ?u = "\<lambda>f. if Id f = Id f0 then f\<lparr>Md5Checksum := h\<rparr> else f"
  have u: "Id (?u f) = Id f \<and> Name (?u f) = Name f \<and> Parents (?u f) = Parents f
               \<and> MimeType (?u f) = MimeType f" for f by simp
  note FA = folder_at_map[of ?u, OF u] and FI = file_at_map[of ?u, OF u]
  show "tree_like (map ?u fs) root" using D(1) u by (rule tree_like_map)
  show "root_known (map ?u fs) root" using D(2) root_known_map[of ?u fs root] by simp
  show "folder_at (map ?u fs) root [] i k" if "fc k = Some i" for k i
    using D(3)[OF that] unfolding FA .
  show "(lf(rp \<mapsto> h)) p = Some (Md5Checksum f') \<or> ((lf(rp \<mapsto> h)) p = None \<and> m0 p = Some f')"
    if "file_at (map ?u fs) root [] p f'" for p f'
  proof -
    from that obtain f where f: "file_at fs root [] p f" "f' = ?u f" unfolding FI by blast
    show ?thesis
    proof (cases "Id f = Id f0")
      case True
      from walk_inv_same_id[OF inv f(1) rp(2) True] have "p = rp" .
      with f(2) True show ?thesis by simp
    next
      case False
      have "p \<noteq> rp"
      proof
        assume "p = rp"
        with D(4)[OF f(1)] rp have "f = f0" by auto
        with False show False by simp
      qed
      with D(4)[OF f(1)] f(2) False show ?thesis by simp
    qed
  qed
  show "\<exists>f. file_at (map ?u fs) root [] p f" if "(lf(rp \<mapsto> h)) p \<noteq> None" for p
  proof (cases "p = rp")
    case True
    from D(6)[OF rp(2)] obtain f where "file_at fs root [] rp f" by blast
    with True show ?thesis unfolding FI by blast
  next
    case False
    with that D(5)[of p] obtain f where "file_at fs root [] p f" by auto
    then show ?thesis unfolding FI by blast
  qed
  show "\<exists>f. file_at (map ?u fs) root [] q f \<and> Id f = Id g0" if "m0 q = Some g0" for q g0
  proof -
    from D(6)[OF that] obtain f where f: "file_at fs root [] q f" "Id f = Id g0" by blast
    then have "file_at (map ?u fs) root [] q (?u f)" unfolding FI by blast
    moreover have "Id (?u f) = Id g0" using f(2) by simp
    ultimately show ?thesis by blast
  qed
qed

lemma walk_inv_add_file:
  assumes inv: "walk_inv root m0 lf fc fs"
      and rp: "lf rp = None" "m0 rp = None"
      and pid: "folder_at fs root [] pid pp"
      and fresh: "\<forall>x\<in>set fs. Id x \<noteq> Id g"
      and g: "Parents g = [pid]" "MimeType g \<noteq> folder_mime" "filepath_Join [pp, Name g] = rp"
             "Md5Checksum g = ck"
  shows "walk_inv root m0 (lf(rp \<mapsto> ck)) fc (fs @ [g])"
proof (rule walk_invI)
  note D = walk_invD[OF inv]
  note FA = folder_at_add_file[OF g(2)] and FI = file_at_add_file[OF g(2)]
  have at: "file_at (fs @ [g]) root [] rp g"
    unfolding FI using pid g by auto
  have old_not_rp: "p \<noteq> rp" if "file_at fs root [] p f" for p f
    using D(4)[OF that] rp by auto
  show "tree_like (fs @ [g]) root" using D(1) fresh g by (intro tree_like_add_file) simp_all
  show "root_known (fs @ [g]) root" using D(2) by (rule root_known_mono) auto
  show "folder_at (fs @ [g]) root [] i k" if "fc k = Some i" for k i
    using D(3)[OF that] unfolding FA .
  show "(lf(rp \<mapsto> ck)) p = Some (Md5Checksum f) \<or> ((lf(rp \<mapsto> ck)) p = None \<and> m0 p = Some f)"
    if "file_at (fs @ [g]) root [] p f" for p f
  proof -
    from that consider (old) "file_at fs root [] p f"
      | (new) c q where "f = g" "folder_at fs root [] c q" "c \<in> set (Parents g)"
          "p = filepath_Join [q, Name g]"
      unfolding FI by blast
    then show ?thesis
    proof cases
      case old
      with D(4)[OF old] old_not_rp[OF old] show ?thesis by simp
    next
      case new
      from new(3) g(1) have "c = pid" by simp
      with new(2) pid D(1) have "q = pp" unfolding tree_like_def by blast
      with new(1,4) g(3,4) show ?thesis by simp
    qed
  qed
  show "\<exists>f. file_at (fs @ [g]) root [] p f" if "(lf(rp \<mapsto> ck)) p \<noteq> None" for p
  proof (cases "p = rp")
    case True
    with at show ?thesis by blast
  next
    case False
    with that D(5)[of p] obtain f where "file_at fs root [] p f" by auto
    then show ?thesis unfolding FI by blast
  qed
  show "\<exists>f. file_at (fs @ [g]) root [] q f \<and> Id f = Id f0" if "m0 q = Some f0" for q f0
    using D(6)[OF that] unfolding FI by blast
qed

lemma resolve_folders_inv:
  assumes "resolve_folders e pre ps pid fc st = (Ok pid', fc', st')"
      and "walk_inv root m0 lf fc (files st)"
      and "folder_at (files st) root [] pid (join_slash pre)"
      and "list_all plain (pre @ ps)"
  shows "walk_inv root m0 lf fc' (files st') \<and> folder_at (files st') root [] pid' (join_slash (pre @ ps))"
  using assms
proof (induction ps arbitrary: pre pid fc st)
  case Nil
  then show ?case by simp
next
  case (Cons part rest)
  let ?key = "join_slash (pre @ [part])"
  from Cons.prems(4) have pl: "list_all plain (pre @ [part])" and pl': "list_all plain ((pre @ [part]) @ rest)"
    by simp_all
  note J = filepath_Join_plain[OF pl]
  show ?case
  proof (cases "fc ?key")
    case (Some i)
    with Cons.prems(1) have R: "resolve_folders e (pre @ [part]) rest i fc st = (Ok pid', fc', st')"
      by (simp add: Let_def)
    from walk_invD(3)[OF Cons.prems(2) Some] have "folder_at (files st) root [] i ?key" .
    from Cons.IH[OF R Cons.prems(2) this pl'] show ?thesis by simp
  next
    case None
    obtain r1 st1 where G: "createOrGetFolder e part pid st = (r1, st1)"
      by (cases "createOrGetFolder e part pid st")
    with Cons.prems(1) None obtain i where r1: "r1 = Ok i"
      by (cases r1) (simp_all add: Let_def)
    from Cons.prems(1) None G r1
    have R: "resolve_folders e (pre @ [part]) rest i (fc(?key \<mapsto> i)) st1 = (Ok pid', fc', st')"
      by (simp add: Let_def)
    have "walk_inv root m0 lf (fc(?key \<mapsto> i)) (files st1) \<and> folder_at (files st1) root [] i ?key"
      using createOrGetFolder_Ok[OF G[unfolded r1]]
    proof
      assume "files st1 = files st
          \<and> (\<exists>d\<in>set (files st). Id d = i \<and> Name d = part \<and> pid \<in> set (Parents d) \<and> MimeType d = folder_mime)"
      then obtain d where st1: "files st1 = files st" and d: "d \<in> set (files st)" "Id d = i" "Name d = part"
          "pid \<in> set (Parents d)" "MimeType d = folder_mime" by blast
      from folder_at.down[OF Cons.prems(3) d(1,4,5)] d(2,3) J
      have at: "folder_at (files st) root [] i ?key" by simp
      from walk_inv_cache[OF Cons.prems(2) at] at st1 show ?thesis by simp
    next
      assume "\<exists>g. files st1 = files st @ [g] \<and> Id g = i \<and> i = fresh_id st \<and> Name g = part
              \<and> Parents g = [pid] \<and> MimeType g = folder_mime
              \<and> filter (matches (FolderNamed part pid)) (files st) = []"
      then obtain g where st1: "files st1 = files st @ [g]" and g: "Id g = i" "i = fresh_id st"
          "Name g = part" "Parents g = [pid]" "MimeType g = folder_mime" by blast
      have fresh: "\<forall>x\<in>set (files st). Id x \<noteq> Id g \<and> Id g \<notin> set (Parents x)"
        using fresh_id_not_id[of _ st] fresh_id_not_parent[of _ st] g(1,2) by simp
      have nr: "Id g \<noteq> root"
        using fresh_id_not_root[OF walk_invD(2)[OF Cons.prems(2)]] g(1,2) by simp
      from walk_inv_add_folder[OF Cons.prems(2,3) fresh nr g(4,5)] g(1,3) J st1
      have inv: "walk_inv root m0 lf (fc(?key \<mapsto> i)) (files st1)" by simp
      from walk_invD(3)[OF inv, of ?key i] have "folder_at (files st1) root [] i ?key" by simp
      with inv show ?thesis by simp
    qed
    then have inv: "walk_inv root m0 lf (fc(?key \<mapsto> i)) (files st1)"
      and at: "folder_at (files st1) root [] i ?key" by simp_all
    from Cons.IH[OF R inv at pl'] show ?thesis by simp
  qed
qed

lemma computeMD5_Ok: "computeMD5 e fp = Ok ck \<Longrightarrow> \<exists>c. read_file e fp = Data c \<and> ck = md5hex e c"
  by (auto simp: computeMD5_def split: local_file.splits)

lemma folder_mime_not_Nil: "[] \<noteq> folder_mime"
  by (simp add: folder_mime_def)

lemma uploadFile_inv:
  assumes "uploadFile e fp rp root fc st = (Ok u, fc', st')"
      and inv: "walk_inv root m0 lf fc (files st)"
      and rp: "lf rp = None" "m0 rp = None" "plain_path rp"
      and md5: "computeMD5 e fp = Ok ck"
  shows "walk_inv root m0 (lf(rp \<mapsto> ck)) fc' (files st')"
proof -
  let ?parts = "split_slash rp"
  from computeMD5_Ok[OF md5] obtain c where c: "read_file e fp = Data c" "ck = md5hex e c" by blast
  obtain r1 fc1 st1 where R: "resolve_folders e [] (butlast ?parts) root fc st = (r1, fc1, st1)"
    by (cases "resolve_folders e [] (butlast ?parts) root fc st")
  with assms(1) obtain pid where r1: "r1 = Ok pid"
    by (cases r1) (simp_all add: uploadFile_def Let_def)
  let ?f = "\<lparr>Id = [], Name = last ?parts, MimeType = [], Md5Checksum = [], Parents = [pid]\<rparr>"
  obtain r2 st2 where C: "Files_Create e ?f (Some (Data c)) st1 = (r2, st2)"
    by (cases "Files_Create e ?f (Some (Data c)) st1")
  with assms(1) R r1 c(1) obtain g where r2: "r2 = Ok g"
    by (cases r2) (simp_all add: uploadFile_def Let_def)
  from assms(1) R r1 c(1) C r2 have fc': "fc' = fc1" and st': "st' = print (''Uploaded: '' @ fp) st2"
    by (simp_all add: uploadFile_def Let_def)
  note CO = Files_Create_Ok[OF C[unfolded r2]]
  have parts: "butlast ?parts @ [last ?parts] = ?parts" by simp
  from rp(3) have pl: "list_all plain ([] @ butlast ?parts)" "list_all plain (butlast ?parts @ [last ?parts])"
    unfolding plain_path_def parts by (simp_all add: list_all_iff in_set_butlastD)
  have "folder_at (files st) root [] root (join_slash [])" by (simp add: folder_at.here)
  from resolve_folders_inv[OF R[unfolded r1] inv this pl(1)]
  have inv1: "walk_inv root m0 lf fc1 (files st1)"
    and at: "folder_at (files st1) root [] pid (join_slash (butlast ?parts))" by simp_all
  have fresh: "\<forall>x\<in>set (files st1). Id x \<noteq> Id g"
    using fresh_id_not_id[of _ st1] CO(2) by simp
  have "filepath_Join [join_slash (butlast ?parts), Name g] = rp"
    using filepath_Join_plain[OF pl(2)] CO(3) by (simp add: join_split_slash)
  moreover have "MimeType g \<noteq> folder_mime" using CO(4) folder_mime_not_Nil by simp
  moreover have "Md5Checksum g = ck" using CO(6)[of c] c(2) by simp
  moreover have "Parents g = [pid]" using CO(5) by simp
  ultimately have "walk_inv root m0 (lf(rp \<mapsto> ck)) fc1 (files st1 @ [g])"
    by (intro walk_inv_add_file[OF inv1 rp(1,2) at fresh])
  with CO(1) fc' st' show ?thesis by simp
qed

lemma uploadOrUpdateFile_inv:
  assumes U: "uploadOrUpdateFile e fp rp ck m0 root fc st = (Ok u, fc', st')"
      and inv: "walk_inv root m0 lf fc (files st)"
      and rp: "lf rp = None" "plain_path rp"
      and md5: "computeMD5 e fp = Ok ck"
  shows "walk_inv root m0 (lf(rp \<mapsto> ck)) fc' (files st')"
proof (cases "m0 rp")
  case None
  with U have "uploadFile e fp rp root fc (print (''Uploading new file: '' @ rp) st) = (Ok u, fc', st')"
    by (simp add: uploadOrUpdateFile_def)
  moreover have "walk_inv root m0 lf fc (files (print (''Uploading new file: '' @ rp) st))"
    using inv by simp
  ultimately show ?thesis using rp(1) None rp(2) md5 by (rule uploadFile_inv)
next
  case (Some f0)
  show ?thesis
  proof (cases "Md5Checksum f0 = ck")
    case True
    with U Some have "fc' = fc" "files st' = files st" by (auto simp: uploadOrUpdateFile_def)
    with walk_inv_skip[OF inv rp(1) Some True] show ?thesis by simp
  next
    case False
    let ?st0 = "print (''Updating file: '' @ rp) st"
    from computeMD5_Ok[OF md5] obtain c where c: "read_file e fp = Data c" "ck = md5hex e c" by blast
    obtain r1 st1 where F: "Files_Update e (Id f0) (Data c) ?st0 = (r1, st1)"
      by (cases "Files_Update e (Id f0) (Data c) ?st0")
    with U Some False c(1) have r1: "r1 = Ok ()" and fc': "fc' = fc"
      and st': "st' = print (''Updated: '' @ fp) st1"
      by (cases r1; simp add: uploadOrUpdateFile_def updateFile_def)+
    from Files_Update_Ok[OF F[unfolded r1]]
    have "files st1 = map (\<lambda>f. if Id f = Id f0 then f\<lparr>Md5Checksum := md5hex e c\<rparr> else f) (files st)"
      by simp
    with walk_inv_update[OF inv rp(1) Some, of "md5hex e c"] c(2) fc' st' show ?thesis by simp
  qed
qed

lemma walk_fn_inv:
  assumes W: "walk_fn e l root m0 item lf fc st = (Ok u, lf', fc', st')"
      and inv: "walk_inv root m0 lf fc (files st)"
      and rp: "\<forall>rp\<in>set (rel_paths e l [item]). plain_path rp \<and> lf rp = None"
  shows "walk_inv root m0 lf' fc' (files st')"
proof (cases item)
  case (WalkErr p)
  with W show ?thesis by (simp add: walk_fn_def)
next
  case (WalkDir p)
  with W inv show ?thesis by (simp add: walk_fn_def)
next
  case (WalkFile p)
  with W obtain rp' where rel: "rel e l p = Some rp'"
    by (cases "rel e l p") (simp_all add: walk_fn_def)
  with W WalkFile obtain ck where md5: "computeMD5 e p = Ok ck"
    by (cases "computeMD5 e p") (simp_all add: walk_fn_def)
  obtain r1 fc1 st1 where U: "uploadOrUpdateFile e p rp' ck m0 root fc st = (r1, fc1, st1)"
    by (cases "uploadOrUpdateFile e p rp' ck m0 root fc st")
  with W WalkFile rel md5 have eqs: "r1 = Ok u" "lf' = lf(rp' \<mapsto> ck)" "fc' = fc1" "st' = st1"
    by (simp_all add: walk_fn_def)
  from rp WalkFile rel have "plain_path rp'" "lf rp' = None" by simp_all
  from uploadOrUpdateFile_inv[OF U[unfolded eqs(1)] inv this(2,1) md5] eqs show ?thesis by simp
qed

lemma walk_fn_Ok_other:
  assumes "walk_fn e l root m0 item lf fc st = (Ok u, lf', fc', st')"
  shows "\<forall>p. p \<notin> set (rel_paths e l [item]) \<longrightarrow> lf' p = lf p"
  using assms
  by (cases item)
     (auto simp: walk_fn_def split: option.splits res.splits prod.splits)

lemma filepath_Walk_inv:
  assumes "filepath_Walk e l root m0 items lf fc st = (Ok u, lf', fc', st')"
      and "walk_inv root m0 lf fc (files st)"
      and "\<forall>rp\<in>set (rel_paths e l items). plain_path rp \<and> lf rp = None"
      and "distinct (rel_paths e l items)"
  shows "walk_inv root m0 lf' fc' (files st')"
  using assms
proof (induction items arbitrary: lf fc st)
  case Nil
  then show ?case by simp
next
  case (Cons item items)
  obtain r1 lf1 fc1 st1 where W: "walk_fn e l root m0 item lf fc st = (r1, lf1, fc1, st1)"
    by (cases "walk_fn e l root m0 item lf fc st") auto
  with Cons.prems(1) have r1: "r1 = Ok ()" by (cases r1) auto
  from Cons.prems(1) W r1
  have R: "filepath_Walk e l root m0 items lf1 fc1 st1 = (Ok u, lf', fc', st')" by simp
  note C = rel_paths_Cons[of e l item items]
  from Cons.prems(3) C have a: "\<forall>rp\<in>set (rel_paths e l [item]). plain_path rp \<and> lf rp = None"
    by simp
  from walk_fn_inv[OF W[unfolded r1] Cons.prems(2) a]
  have inv1: "walk_inv root m0 lf1 fc1 (files st1)" .
  from Cons.prems(4) C have d: "distinct (rel_paths e l items)"
    and disj: "\<forall>p\<in>set (rel_paths e l items). p \<notin> set (rel_paths e l [item])" by auto
  from walk_fn_Ok_other[OF W[unfolded r1]] disj Cons.prems(3) C
  have b: "\<forall>rp\<in>set (rel_paths e l items). plain_path rp \<and> lf1 rp = None" by simp
  from Cons.IH[OF R inv1 b d] show ?case .
qed

lemma walk_inv_initial:
  assumes F: "fetchRemoteFiles n e root [] Map.empty st = (Ok m0, st1)"
      and t: "tree_like (files st) root" "root_known (files st) root" "one_per_path (files st) root"
  shows "walk_inv root m0 Map.empty Map.empty (files st1)"
proof -
  from fetch_adds(1)[OF F] have fs: "files st1 = files st" by simp
  show ?thesis unfolding fs
  proof (rule walk_invI)
    fix p f assume at: "file_at (files st) root [] p f"
    from scan_complete[OF F at] obtain f' where m: "m0 p = Some f'" by auto
    from scan_sound[OF F m] at t(3) have "f' = f" unfolding one_per_path_def by blast
    with m show "Map.empty p = Some (Md5Checksum f) \<or> (Map.empty p = None \<and> m0 p = Some f)" by simp
  next
    fix q f0 assume "m0 q = Some f0"
    from scan_sound[OF F this] show "\<exists>f. file_at (files st) root [] q f \<and> Id f = Id f0" by blast
  qed (use t in simp_all)
qed

lemma Files_Update_Data_Ok_iff:
  assumes "Files_Update e i (Data c) st = (r, st')"
  shows "(r = Ok ()) = (\<not> fault e (calls st) \<and> i \<in> set (map Id (files st)))"
    and "r \<noteq> Ok () \<Longrightarrow> r = Fail DriveError"
  using assms by (auto simp: Files_Update_def split: if_splits)

text \<open>
  C5. A local entry whose relative path is in the remote index. With equal digests
  the decision returns without error, makes no remote call and leaves the store as
  it is. With different digests, the local file being readable, its one remote call
  is the update of the object under the id the index holds, and no object is added
  or removed; the call succeeds unless the service refuses it or no object has that
  id, and then the decision returns without error and the objects of that id have
  the digest of the local content, every other object being as before; a call that
  fails leaves the store as it was and is returned as an error. The folder cache is
  not touched.
\<close>

theorem present_path_skips_or_updates_in_place:
  assumes "remoteFiles relativePath = Some remoteFile"
      and "uploadOrUpdateFile e filePath relativePath checksum remoteFiles parentID folderCache st
             = (r, folderCache', st')"
  shows "(Md5Checksum remoteFile = checksum \<longrightarrow>
            r = Ok () \<and> files st' = files st \<and> calls st' = calls st
            \<and> api_calls (new_events st st') = [])
       \<and> (Md5Checksum remoteFile \<noteq> checksum \<longrightarrow> read_file e filePath = Data content \<longrightarrow>
            api_calls (new_events st st') = [FilesUpdate (Id remoteFile) (Some content)]
            \<and> map Id (files st') = map Id (files st)
            \<and> ((r = Ok ()) = (\<not> fault e (calls st) \<and> Id remoteFile \<in> set (map Id (files st))))
            \<and> (r = Ok () \<longrightarrow>
                 files st' = map (\<lambda>f. if Id f = Id remoteFile
                                      then f\<lparr>Md5Checksum := md5hex e content\<rparr> else f) (files st))
            \<and> (r \<noteq> Ok () \<longrightarrow>
                 files st' = files st \<and> r = Fail (Wrapped ''unable to update file'' DriveError)))
       \<and> folderCache' = folderCache"
proof (intro conjI impI)
  assume eq: "Md5Checksum remoteFile = checksum"
  with assms have st': "st' = print (''File already exists and is identical: '' @ relativePath) st"
    and r: "r = Ok ()"
    by (simp_all add: uploadOrUpdateFile_def)
  from r show "r = Ok ()" .
  from st' show "files st' = files st" "calls st' = calls st" "api_calls (new_events st st') = []"
    by simp_all
next
  show "folderCache' = folderCache"
    using assms by (auto simp: uploadOrUpdateFile_def split: if_splits prod.splits)
next
  assume ne: "Md5Checksum remoteFile \<noteq> checksum" and rd: "read_file e filePath = Data content"
  let ?st0 = "print (''Updating file: '' @ relativePath) st"
  obtain r1 st1 where U: "Files_Update e (Id remoteFile) (Data content) ?st0 = (r1, st1)"
    by (cases "Files_Update e (Id remoteFile) (Data content) ?st0")
  note U1 = Files_Update_result[OF U]
  note U2 = Files_Update_Data_Ok_iff[OF U]
  have ad: "adds is_update ?st0 st1" by (rule Files_Update_adds[OF U])
  have ne0: "new_events st st1 = new_events st ?st0 @ new_events ?st0 st1"
    by (rule new_events_trans[OF adds_print ad]) simp
  from assms ne rd U
  have res: "(r = Ok () \<and> r1 = Ok () \<and> st' = print (''Updated: '' @ filePath) st1)
           \<or> (r = Fail (Wrapped ''unable to update file'' DriveError) \<and> r1 \<noteq> Ok () \<and> st' = st1)"
    using U2(2) by (cases r1) (auto simp: uploadOrUpdateFile_def updateFile_def)
  have ne1: "new_events st st' = new_events st st1 \<or> new_events st st' = new_events st st1 @ [Print (''Updated: '' @ filePath)]"
  proof -
    have "adds (\<lambda>ev. True) st ?st0" by (rule adds_print) simp
    moreover have "adds (\<lambda>ev. True) ?st0 st1" using ad by (rule adds_mono) simp
    ultimately have "adds (\<lambda>ev. True) st st1" by (rule adds_trans)
    from new_events_print_after[OF this] res show ?thesis by auto
  qed
  with ne0 U1(1) show "api_calls (new_events st st') = [FilesUpdate (Id remoteFile) (Some content)]"
    by (auto simp: api_calls_append)
  from res U1(2) show "map Id (files st') = map Id (files st)" by auto
  from res U2(1) show "(r = Ok ()) = (\<not> fault e (calls st) \<and> Id remoteFile \<in> set (map Id (files st)))"
    by auto
  from res U1(3) show "r = Ok () \<Longrightarrow> files st' = map (\<lambda>f. if Id f = Id remoteFile
                                      then f\<lparr>Md5Checksum := md5hex e content\<rparr> else f) (files st)"
    by auto
  from res U1(4) show "r \<noteq> Ok () \<Longrightarrow> files st' = files st" by auto
  from res show "r \<noteq> Ok () \<Longrightarrow> r = Fail (Wrapped ''unable to update file'' DriveError)" by auto
qed

theorem present_path_skips_or_updates_in_place_witness:
  "fst (uploadOrUpdateFile example_env ''/data/a.txt'' ''a.txt'' ''md5-alpha''
          [''a.txt'' \<mapsto> example_a] ''root'' Map.empty example_state) = Ok ()
   \<and> files (snd (snd (uploadOrUpdateFile example_env ''/data/a.txt'' ''a.txt'' ''md5-alpha''
                  [''a.txt'' \<mapsto> example_a] ''root'' Map.empty example_state)))
       = [example_root, example_a\<lparr>Md5Checksum := ''md5-alpha''\<rparr>, example_old]
   \<and> api_calls (new_events example_state
      (snd (snd (uploadOrUpdateFile example_env ''/data/a.txt'' ''a.txt'' ''md5-alpha''
                  [''a.txt'' \<mapsto> example_a] ''root'' Map.empty example_state))))
     = [FilesUpdate ''f1'' (Some ''alpha'')]"
proof -
  define X where "X = uploadOrUpdateFile example_env ''/data/a.txt'' ''a.txt'' ''md5-alpha''
                  [''a.txt'' \<mapsto> example_a] ''root'' Map.empty example_state"
  obtain r c st' where u: "X = (r, c, st')"
    by (cases X) auto
  have h: "[''a.txt'' \<mapsto> example_a] ''a.txt'' = Some example_a" by simp
  have ne: "Md5Checksum example_a \<noteq> ''md5-alpha''" by (simp add: example_a_def)
  have rd: "read_file example_env ''/data/a.txt'' = Data ''alpha''" by (simp add: example_env_def)
  have i: "Id example_a = ''f1''" by (simp add: example_a_def)
  have nf: "\<not> fault example_env (calls example_state)" by (simp add: example_env_def)
  have known: "Id example_a \<in> set (map Id (files example_state))"
    by (simp add: example_state_def example_a_def)
  have m: "md5hex example_env ''alpha'' = ''md5-alpha''" by (simp add: example_env_def)
  have fs: "map (\<lambda>f. if Id f = Id example_a then f\<lparr>Md5Checksum := ''md5-alpha''\<rparr> else f)
              (files example_state)
            = [example_root, example_a\<lparr>Md5Checksum := ''md5-alpha''\<rparr>, example_old]"
    by (simp add: example_state_def example_a_def example_root_def example_old_def)
  note T = present_path_skips_or_updates_in_place [OF h u [unfolded X_def], of "''alpha''",
              THEN conjunct2, THEN conjunct1, rule_format, OF ne rd]
  from T nf known have r: "r = Ok ()" by simp
  from T r have "files st' = map (\<lambda>f. if Id f = Id example_a
                     then f\<lparr>Md5Checksum := md5hex example_env ''alpha''\<rparr> else f) (files example_state)"
    by simp
  then have f: "files st' = [example_root, example_a\<lparr>Md5Checksum := ''md5-alpha''\<rparr>, example_old]"
    unfolding m fs .
  from T have "api_calls (new_events example_state st') = [FilesUpdate (Id example_a) (Some ''alpha'')]"
    by simp
  with r f
  have "r = Ok () \<and> files st' = [example_root, example_a\<lparr>Md5Checksum := ''md5-alpha''\<rparr>, example_old]
      \<and> api_calls (new_events example_state st') = [FilesUpdate ''f1'' (Some ''alpha'')]"
    by (simp add: i)
  then have "fst X = Ok () \<and> files (snd (snd X)) = [example_root, example_a\<lparr>Md5Checksum := ''md5-alpha''\<rparr>, example_old]
      \<and> api_calls (new_events example_state (snd (snd X))) = [FilesUpdate ''f1'' (Some ''alpha'')]"
    by (simp add: u)
  then show ?thesis unfolding X_def .
qed

lemma Files_Delete_cases:
  assumes "Files_Delete e i st = (r, st')"
  shows "calls st' = Suc (calls st)"
    and "(r = Ok ()) = (\<not> fault e (calls st) \<and> i \<in> set (map Id (files st)))"
    and "r = Ok () \<or> r = Fail DriveError"
    and "r \<noteq> Ok () \<Longrightarrow> files st' = files st"
  using assms by (auto simp: Files_Delete_def record_call_def split: if_splits)

lemma orphans_Cons:
  "orphans lf rf (k # ks) = (if rf k \<noteq> None \<and> lf k = None then k # orphans lf rf ks else orphans lf rf ks)"
  by (simp add: orphans_def)

lemma delete_range_Ok_store:
  "delete_range e lf rf ks st = (Ok u, st') \<Longrightarrow>
     files st' = filter (\<lambda>f. Id f \<notin> set (map (\<lambda>k. Id (the (rf k))) (orphans lf rf ks))) (files st)
   \<and> calls st' = calls st + length (orphans lf rf ks)"
proof (induction ks arbitrary: st)
  case Nil
  then show ?case by (simp add: orphans_def)
next
  case (Cons k ks)
  show ?case
  proof (cases "\<exists>f. rf k = Some f \<and> lf k = None")
    case True
    then obtain f where f: "rf k = Some f" "lf k = None" by blast
    let ?st0 = "print (''Deleting remote file: '' @ k) st"
    obtain r1 st1 where D: "Files_Delete e (Id f) ?st0 = (r1, st1)"
      by (cases "Files_Delete e (Id f) ?st0")
    with Cons.prems f have r1: "r1 = Ok ()" by (cases r1) auto
    with Cons.prems f D have R: "delete_range e lf rf ks st1 = (Ok u, st')" by simp
    from Files_Delete_Ok[OF D[unfolded r1]] have fs1: "files st1 = filter (\<lambda>x. Id x \<noteq> Id f) (files st)"
      by simp
    from Files_Delete_cases(1)[OF D] have c1: "calls st1 = Suc (calls st)" by simp
    from Cons.IH[OF R] fs1 c1 f show ?thesis
      by (auto simp: orphans_Cons intro: filter_cong)
  next
    case False
    with Cons.prems have R: "delete_range e lf rf ks st = (Ok u, st')"
      by (auto split: option.splits if_splits)
    from Cons.IH[OF R] False show ?thesis by (auto simp: orphans_Cons)
  qed
qed

lemma delete_range_succeeds:
  assumes "\<forall>j<length (orphans lf rf ks). \<not> fault e (calls st + j)"
      and "distinct (map (\<lambda>k. Id (the (rf k))) (orphans lf rf ks))"
      and "set (map (\<lambda>k. Id (the (rf k))) (orphans lf rf ks)) \<subseteq> set (map Id (files st))"
  shows "fst (delete_range e lf rf ks st) = Ok ()"
  using assms
proof (induction ks arbitrary: st)
  case Nil
  then show ?case by simp
next
  case (Cons k ks)
  show ?case
  proof (cases "\<exists>f. rf k = Some f \<and> lf k = None")
    case True
    then obtain f where f: "rf k = Some f" "lf k = None" by blast
    then have o: "orphans lf rf (k # ks) = k # orphans lf rf ks" by (simp add: orphans_Cons)
    let ?st0 = "print (''Deleting remote file: '' @ k) st"
    obtain r1 st1 where D: "Files_Delete e (Id f) ?st0 = (r1, st1)"
      by (cases "Files_Delete e (Id f) ?st0")
    from Cons.prems(1) o have "\<not> fault e (calls st)" by auto
    moreover from Cons.prems(3) o f have "Id f \<in> set (map Id (files st))" by simp
    ultimately have r1: "r1 = Ok ()" using Files_Delete_cases(2)[OF D] by simp
    from Files_Delete_Ok[OF D[unfolded r1]] have fs1: "files st1 = filter (\<lambda>x. Id x \<noteq> Id f) (files st)"
      by simp
    from Files_Delete_cases(1)[OF D] have c1: "calls st1 = Suc (calls st)" by simp
    have a: "\<forall>j<length (orphans lf rf ks). \<not> fault e (calls st1 + j)"
    proof (intro allI impI)
      fix j assume "j < length (orphans lf rf ks)"
      then have "Suc j < length (orphans lf rf (k # ks))" by (simp add: o)
      with Cons.prems(1) have "\<not> fault e (calls st + Suc j)" by blast
      then show "\<not> fault e (calls st1 + j)" by (simp add: c1)
    qed
    from Cons.prems(2) o f
    have b: "distinct (map (\<lambda>k. Id (the (rf k))) (orphans lf rf ks))"
      and nin: "Id f \<notin> set (map (\<lambda>k. Id (the (rf k))) (orphans lf rf ks))" by simp_all
    have c: "set (map (\<lambda>k. Id (the (rf k))) (orphans lf rf ks)) \<subseteq> set (map Id (files st1))"
    proof
      fix i assume i: "i \<in> set (map (\<lambda>k. Id (the (rf k))) (orphans lf rf ks))"
      with Cons.prems(3) o have "i \<in> set (map Id (files st))" by auto
      then obtain x where "x \<in> set (files st)" "Id x = i" by auto
      moreover from i nin have "i \<noteq> Id f" by blast
      ultimately show "i \<in> set (map Id (files st1))" unfolding fs1 by auto
    qed
    from Cons.IH[OF a b c] D r1 f show ?thesis by simp
  next
    case False
    then have o: "orphans lf rf (k # ks) = orphans lf rf ks" by (auto simp: orphans_Cons)
    from Cons.IH[of st] Cons.prems o False show ?thesis
      by (auto split: option.splits)
  qed
qed

text \<open>
  C4. A run makes a delete call only after it has read the remote index and walked
  the whole local tree with success. Of such a run: the local index holds every
  relative path of the tree; its events are those of the scan and the walk, none of
  them a delete call, followed by those of the deletion pass, which are delete calls
  and messages only; the delete calls are made in the order \<^verbatim>\<open>range\<close> enumerates
  the remote index, one for each path the local index does not hold, on the id the
  index holds there, and the pass stops at the first call that fails. A run that
  returns without error has made all of them, and the store it leaves is the store
  after the walk without the objects of these ids. When these ids differ from one
  another, all are ids of the store after the walk, and the service refuses none of
  the calls, the run returns without error. When \<^verbatim>\<open>range\<close> gives each key of the
  index once, these paths are the keys outside the local index, each once.
\<close>

theorem deletion_pass_runs_last:
  assumes "syncFiles fuel e localDir remoteFolderID st = (r, st')"
  shows "(deleted_ids (new_events st st') \<noteq> [] \<longrightarrow>
            (\<exists>remoteFiles st1 localFiles folderCache st2.
               fetchRemoteFiles fuel e remoteFolderID [] Map.empty st = (Ok remoteFiles, st1)
             \<and> filepath_Walk e localDir remoteFolderID remoteFiles (walk e localDir)
                  Map.empty Map.empty st1 = (Ok (), localFiles, folderCache, st2)))
       \<and> (\<forall>remoteFiles st1 localFiles folderCache st2.
            fetchRemoteFiles fuel e remoteFolderID [] Map.empty st = (Ok remoteFiles, st1)
          \<and> filepath_Walk e localDir remoteFolderID remoteFiles (walk e localDir)
               Map.empty Map.empty st1 = (Ok (), localFiles, folderCache, st2)
          \<longrightarrow>
            dom localFiles = set (rel_paths e localDir (walk e localDir))
          \<and> new_events st st' = new_events st st2 @ new_events st2 st'
          \<and> list_all (\<lambda>ev. \<not> is_delete ev) (new_events st st2)
          \<and> list_all (\<lambda>ev. is_delete ev \<or> is_print ev) (new_events st2 st')
          \<and> (\<exists>n. deleted_ids (new_events st st')
                   = take n (map (\<lambda>k. Id (the (remoteFiles k)))
                              (orphans localFiles remoteFiles (range_keys e remoteFiles))))
          \<and> (r = Ok () \<longrightarrow>
                deleted_ids (new_events st st')
                  = map (\<lambda>k. Id (the (remoteFiles k)))
                      (orphans localFiles remoteFiles (range_keys e remoteFiles))
              \<and> files st'
                  = filter (\<lambda>f. Id f \<notin> set (map (\<lambda>k. Id (the (remoteFiles k)))
                                  (orphans localFiles remoteFiles (range_keys e remoteFiles))))
                      (files st2))
          \<and> ((\<forall>j<length (orphans localFiles remoteFiles (range_keys e remoteFiles)).
                  \<not> fault e (calls st2 + j))
              \<and> distinct (map (\<lambda>k. Id (the (remoteFiles k)))
                            (orphans localFiles remoteFiles (range_keys e remoteFiles)))
              \<and> set (map (\<lambda>k. Id (the (remoteFiles k)))
                            (orphans localFiles remoteFiles (range_keys e remoteFiles)))
                  \<subseteq> set (map Id (files st2))
              \<longrightarrow> r = Ok ())
          \<and> (distinct (range_keys e remoteFiles) \<and> set (range_keys e remoteFiles) = dom remoteFiles \<longrightarrow>
                distinct (orphans localFiles remoteFiles (range_keys e remoteFiles))
              \<and> set (orphans localFiles remoteFiles (range_keys e remoteFiles))
                  = dom remoteFiles - dom localFiles))"
proof (intro conjI allI impI)
  assume ne: "deleted_ids (new_events st st') \<noteq> []"
  obtain r1 st1 where F: "fetchRemoteFiles fuel e remoteFolderID [] Map.empty st = (r1, st1)"
    by (cases "fetchRemoteFiles fuel e remoteFolderID [] Map.empty st")
  have A1: "adds (\<lambda>ev. \<not> is_delete ev) st st1"
    using fetch_adds(1)[OF F] by (auto elim!: adds_mono elim: is_delete.elims)
  have r1: "\<exists>rf. r1 = Ok rf"
  proof (cases r1)
    case (Fail x)
    with assms F have "st' = st1" by (simp add: syncFiles_def)
    with A1 ne show ?thesis by (simp add: adds_def deleted_ids_none)
  next
    case OutOfFuel
    with assms F have "st' = st1" by (simp add: syncFiles_def)
    with A1 ne show ?thesis by (simp add: adds_def deleted_ids_none)
  qed simp
  then obtain rf where Ok: "r1 = Ok rf" by blast
  obtain r2 lf fc st2 where
    W: "filepath_Walk e localDir remoteFolderID rf (walk e localDir) Map.empty Map.empty st1
          = (r2, lf, fc, st2)"
    by (cases "filepath_Walk e localDir remoteFolderID rf (walk e localDir) Map.empty Map.empty st1")
  have A2: "adds (\<lambda>ev. \<not> is_delete ev) st st2"
    using A1 filepath_Walk_adds[OF W] by (rule adds_trans)
  have "r2 = Ok ()"
  proof (cases r2)
    case (Fail x)
    with assms F Ok W have "st' = st2" by (simp add: syncFiles_def)
    with A2 ne show ?thesis by (simp add: adds_def deleted_ids_none)
  next
    case OutOfFuel
    with assms F Ok W have "st' = st2" by (simp add: syncFiles_def)
    with A2 ne show ?thesis by (simp add: adds_def deleted_ids_none)
  qed simp
  with F Ok W show "\<exists>remoteFiles st1 localFiles folderCache st2.
               fetchRemoteFiles fuel e remoteFolderID [] Map.empty st = (Ok remoteFiles, st1)
             \<and> filepath_Walk e localDir remoteFolderID remoteFiles (walk e localDir)
                  Map.empty Map.empty st1 = (Ok (), localFiles, folderCache, st2)"
    by blast
next
  fix rf st1 lf fc st2
  assume FW: "fetchRemoteFiles fuel e remoteFolderID [] Map.empty st = (Ok rf, st1)
          \<and> filepath_Walk e localDir remoteFolderID rf (walk e localDir)
               Map.empty Map.empty st1 = (Ok (), lf, fc, st2)"
  then have F: "fetchRemoteFiles fuel e remoteFolderID [] Map.empty st = (Ok rf, st1)"
    and W: "filepath_Walk e localDir remoteFolderID rf (walk e localDir)
               Map.empty Map.empty st1 = (Ok (), lf, fc, st2)" by simp_all
  let ?ids = "map (\<lambda>k. Id (the (rf k))) (orphans lf rf (range_keys e rf))"
  have A1: "adds (\<lambda>ev. \<not> is_delete ev) st st1"
    using fetch_adds(1)[OF F] by (auto elim!: adds_mono elim: is_delete.elims)
  have A2: "adds (\<lambda>ev. \<not> is_delete ev) st st2"
    using A1 filepath_Walk_adds[OF W] by (rule adds_trans)
  obtain r3 st3 where D: "delete_range e lf rf (range_keys e rf) st2 = (r3, st3)"
    by (cases "delete_range e lf rf (range_keys e rf) st2")
  from assms F W D have "st' = st3 \<and> (r = Ok () \<longleftrightarrow> r3 = Ok ())"
    by (cases r3) (auto simp: syncFiles_def deleteRemoteFiles_def)
  then have st': "st' = st3" and r: "r = Ok () \<longleftrightarrow> r3 = Ok ()" by simp_all
  have A3: "adds (\<lambda>ev. is_delete ev \<or> is_print ev) st2 st3" by (rule delete_range_adds[OF D])
  from delete_range_log[OF D] obtain evs n where
    E: "log st3 = log st2 @ evs"
       "deleted_ids evs = take n ?ids"
       "r3 = Ok () \<longrightarrow> deleted_ids evs = ?ids"
    by blast
  have ne: "new_events st st3 = new_events st st2 @ new_events st2 st3"
    by (rule new_events_trans[OF A2 A3])
  have n23: "new_events st2 st3 = evs" by (rule new_events_append[OF E(1)])
  have d0: "deleted_ids (new_events st st2) = []"
    using A2 by (simp add: adds_def deleted_ids_none)
  have dd: "deleted_ids (new_events st st3) = deleted_ids evs"
    by (simp add: ne deleted_ids_append d0 n23)
  show "dom lf = set (rel_paths e localDir (walk e localDir))"
    using filepath_Walk_Ok_index[OF W] by simp
  show "new_events st st' = new_events st st2 @ new_events st2 st'"
    using ne by (simp only: st')
  show "list_all (\<lambda>ev. \<not> is_delete ev) (new_events st st2)"
    using A2 by (simp only: adds_def)
  show "list_all (\<lambda>ev. is_delete ev \<or> is_print ev) (new_events st2 st')"
    using A3 by (simp only: adds_def st')
  show "\<exists>n. deleted_ids (new_events st st') = take n ?ids"
    using dd E(2) unfolding st' by auto
  show "deleted_ids (new_events st st') = ?ids" if "r = Ok ()"
    using dd E(3) r that unfolding st' by simp
  show "files st' = filter (\<lambda>f. Id f \<notin> set ?ids) (files st2)" if "r = Ok ()"
  proof -
    from that r D have "delete_range e lf rf (range_keys e rf) st2 = (Ok (), st3)" by simp
    from delete_range_Ok_store[OF this] show ?thesis unfolding st' by simp
  qed
  show "r = Ok ()"
    if "(\<forall>j<length (orphans lf rf (range_keys e rf)). \<not> fault e (calls st2 + j))
        \<and> distinct ?ids \<and> set ?ids \<subseteq> set (map Id (files st2))"
  proof -
    from that have "fst (delete_range e lf rf (range_keys e rf) st2) = Ok ()"
      by (intro delete_range_succeeds) simp_all
    with D r show ?thesis by simp
  qed
  show "distinct (orphans lf rf (range_keys e rf))"
    if "distinct (range_keys e rf) \<and> set (range_keys e rf) = dom rf"
    using orphans_set[of "range_keys e rf" rf lf] that by blast
  show "set (orphans lf rf (range_keys e rf)) = dom rf - dom lf"
    if "distinct (range_keys e rf) \<and> set (range_keys e rf) = dom rf"
    using orphans_set[of "range_keys e rf" rf lf] that by blast
qed

theorem deletion_pass_runs_last_witness:
  "\<exists>remoteFiles st1 localFiles folderCache st2.
      fetchRemoteFiles 5 example_env ''root'' [] Map.empty example_state = (Ok remoteFiles, st1)
    \<and> filepath_Walk example_env ''/data'' ''root'' remoteFiles (walk example_env ''/data'')
         Map.empty Map.empty st1 = (Ok (), localFiles, folderCache, st2)
    \<and> deleted_ids (new_events example_state (snd (syncFiles 5 example_env ''/data'' ''root'' example_state)))
        = map (\<lambda>k. Id (the (remoteFiles k)))
            (orphans localFiles remoteFiles (range_keys example_env remoteFiles))
    \<and> files (snd (syncFiles 5 example_env ''/data'' ''root'' example_state))
        = filter (\<lambda>f. Id f \<notin> set (map (\<lambda>k. Id (the (remoteFiles k)))
                        (orphans localFiles remoteFiles (range_keys example_env remoteFiles))))
            (files st2)
    \<and> deleted_ids (new_events example_state (snd (syncFiles 5 example_env ''/data'' ''root'' example_state)))
        = [''f2'']
    \<and> fst (syncFiles 5 example_env ''/data'' ''root'' example_state) = Ok ()
    \<and> map Id (files (snd (syncFiles 5 example_env ''/data'' ''root'' example_state)))
        = [''root'', ''f1'', ''nnnnn'', ''nnnnnn'']"
proof -
  define S where "S = syncFiles 5 example_env ''/data'' ''root'' example_state"
  have s: "syncFiles 5 example_env ''/data'' ''root'' example_state = (Ok (), snd S)"
    unfolding S_def by code_simp
  have d: "deleted_ids (new_events example_state (snd S)) = [''f2'']"
    unfolding S_def by code_simp
  have i: "map Id (files (snd S)) = [''root'', ''f1'', ''nnnnn'', ''nnnnnn'']"
    unfolding S_def by code_simp
  have f: "fst S = Ok ()" unfolding S_def by code_simp
  note T = deletion_pass_runs_last [OF s]
  from T [THEN conjunct1] d obtain rf st1 lf fc st2 where
    FW: "fetchRemoteFiles 5 example_env ''root'' [] Map.empty example_state = (Ok rf, st1)
       \<and> filepath_Walk example_env ''/data'' ''root'' rf (walk example_env ''/data'')
            Map.empty Map.empty st1 = (Ok (), lf, fc, st2)"
    by auto
  from T [THEN conjunct2, rule_format, OF FW] d
  have "deleted_ids (new_events example_state (snd S))
          = map (\<lambda>k. Id (the (rf k))) (orphans lf rf (range_keys example_env rf))
      \<and> files (snd S)
          = filter (\<lambda>f. Id f \<notin> set (map (\<lambda>k. Id (the (rf k))) (orphans lf rf (range_keys example_env rf))))
              (files st2)"
    by simp
  with FW d f i show ?thesis unfolding S_def [symmetric]
    by (intro exI conjI) (erule conjunct1 conjunct2 | assumption)+
qed

lemma scan_trace_first_request:
  "scan_trace c t ok (Api (FilesList q t') rep # evs) \<Longrightarrow> q = InParents c \<and> t' = t"
  by (erule scan_trace.cases) auto

lemma range_trace_no_folder:
  "range_trace fs ok evs \<Longrightarrow> \<forall>f\<in>set fs. MimeType f \<noteq> folder_mime \<Longrightarrow> evs = []"
  by (induction fs ok evs rule: scan_trace_range_trace.inducts(2)) auto

lemma scan_trace_next_request:
  assumes "scan_trace c t ok (Api (FilesList (InParents c) t) (Listed page nxt) # Api (FilesList q t') rep # evs)"
      and "\<forall>f\<in>set page. MimeType f \<noteq> folder_mime"
  shows "q = InParents c \<and> t' = nxt \<and> nxt \<noteq> 0"
proof -
  from assms(1) have
    "(\<exists>evr. range_trace page ok evr \<and> Api (FilesList q t') rep # evs = evr)
     \<or> (\<exists>evr evp. range_trace page True evr \<and> nxt \<noteq> 0 \<and> scan_trace c nxt ok evp
            \<and> Api (FilesList q t') rep # evs = evr @ evp)"
    by (auto elim: scan_trace.cases)
  then show ?thesis
  proof (elim disjE exE conjE)
    fix evr assume "range_trace page ok evr" "Api (FilesList q t') rep # evs = evr"
    with range_trace_no_folder[OF this(1) assms(2)] show ?thesis by simp
  next
    fix evr evp
    assume *: "range_trace page True evr" "nxt \<noteq> 0" "scan_trace c nxt ok evp"
        "Api (FilesList q t') rep # evs = evr @ evp"
    from range_trace_no_folder[OF *(1) assms(2)] *(4) have "evp = Api (FilesList q t') rep # evs"
      by simp
    with *(3) scan_trace_first_request[of c nxt ok q t' rep evs] *(2) show ?thesis by simp
  qed
qed

lemma fetch_fuel_mono:
  "fetchRemoteFiles n e c path m st = (r, st') \<Longrightarrow> r \<noteq> OutOfFuel \<Longrightarrow>
     fetchRemoteFiles (n + k) e c path m st = (r, st')"
  "fetch_pages n e c path t m st = (r, st') \<Longrightarrow> r \<noteq> OutOfFuel \<Longrightarrow>
     fetch_pages (n + k) e c path t m st = (r, st')"
  "fetch_range n e path fs m st = (r, st') \<Longrightarrow> r \<noteq> OutOfFuel \<Longrightarrow>
     fetch_range (n + k) e path fs m st = (r, st')"
proof (induction n e c path m st and n e c path t m st and n e path fs m st
    arbitrary: r st' and r st' and r st' rule: fetchRemoteFiles_fetch_pages_fetch_range.induct)
  case (1 e parentID path remoteFiles st)
  then show ?case by simp
next
  case (2 n e parentID path remoteFiles st)
  then show ?case by simp
next
  case (3 e parentID path pageToken remoteFiles st)
  then show ?case by simp
next
  case (4 n e parentID path pageToken remoteFiles st)
  obtain r1 st1 where L: "Files_List e (InParents parentID) pageToken st = (r1, st1)"
    by (cases "Files_List e (InParents parentID) pageToken st")
  show ?case
  proof (cases r1)
    case (Ok pg)
    obtain page nxt where pg: "pg = (page, nxt)" by (cases pg)
    obtain r2 st2 where R: "fetch_range n e path page remoteFiles st1 = (r2, st2)"
      by (cases "fetch_range n e path page remoteFiles st1")
    have r1: "r1 = Ok (page, nxt)" using Ok pg by simp
    show ?thesis
    proof (cases r2)
      case Ok2: (Ok m2)
      from "4.IH"(1)[OF L[symmetric] r1 refl R] Ok2
      have R': "fetch_range (n + k) e path page remoteFiles st1 = (Ok m2, st2)" by simp
      show ?thesis
      proof (cases "nxt = 0")
        case True
        with "4.prems" L r1 R Ok2 have "r = Ok m2" "st' = st2" by simp_all
        with L r1 R' True show ?thesis by simp
      next
        case False
        with "4.prems" L r1 R Ok2
        have P: "fetch_pages n e parentID path nxt m2 st2 = (r, st')" by simp
        from "4.IH"(2)[OF L[symmetric] r1 refl R[symmetric] Ok2 False P "4.prems"(2)]
        have "fetch_pages (n + k) e parentID path nxt m2 st2 = (r, st')" .
        with L r1 R' False show ?thesis by simp
      qed
    next
      case (Fail x)
      from "4.IH"(1)[OF L[symmetric] r1 refl R] Fail
      have R': "fetch_range (n + k) e path page remoteFiles st1 = (Fail x, st2)" by simp
      from "4.prems" L r1 R Fail have "r = Fail x" "st' = st2" by simp_all
      with L r1 R' show ?thesis by simp
    next
      case OutOfFuel
      with "4.prems" L r1 R show ?thesis by simp
    qed
  next
    case (Fail x)
    with "4.prems" L show ?thesis by simp
  next
    case OutOfFuel
    with "4.prems" L show ?thesis by simp
  qed
next
  case (5 n e path remoteFiles st)
  then show ?case by simp
next
  case (6 e path f rest remoteFiles st)
  then show ?case by simp
next
  case (7 n e path f rest remoteFiles st)
  show ?case
  proof (cases "MimeType f = folder_mime")
    case True
    obtain r1 st1 where F: "fetchRemoteFiles n e (Id f) (filepath_Join [path, Name f]) remoteFiles st = (r1, st1)"
      by (cases "fetchRemoteFiles n e (Id f) (filepath_Join [path, Name f]) remoteFiles st")
    show ?thesis
    proof (cases r1)
      case (Ok m1)
      from "7.IH"(1)[OF refl True F] Ok
      have F': "fetchRemoteFiles (n + k) e (Id f) (filepath_Join [path, Name f]) remoteFiles st = (Ok m1, st1)"
        by simp
      from "7.prems" True F Ok have R: "fetch_range n e path rest m1 st1 = (r, st')" by (simp add: Let_def)
      from "7.IH"(2)[OF refl True F[symmetric] Ok R "7.prems"(2)]
      have "fetch_range (n + k) e path rest m1 st1 = (r, st')" .
      with True F' show ?thesis by (simp add: Let_def)
    next
      case (Fail x)
      from "7.IH"(1)[OF refl True F] Fail
      have F': "fetchRemoteFiles (n + k) e (Id f) (filepath_Join [path, Name f]) remoteFiles st = (Fail x, st1)"
        by simp
      from "7.prems" True F Fail have "r = Fail x" "st' = st1" by (simp_all add: Let_def)
      with True F' show ?thesis by (simp add: Let_def)
    next
      case OutOfFuel
      with "7.prems" True F show ?thesis by (simp add: Let_def)
    qed
  next
    case False
    with "7.prems" have R: "fetch_range n e path rest (remoteFiles(filepath_Join [path, Name f] \<mapsto> f)) st = (r, st')"
      by (simp add: Let_def)
    from "7.IH"(3)[OF refl False R "7.prems"(2)] False show ?thesis by (simp add: Let_def fun_upd_def)
  qed
qed

lemma fetch_fuel_ge:
  assumes "fetchRemoteFiles n e c path m st = (r, st')" "r \<noteq> OutOfFuel" "n \<le> n'"
  shows "fetchRemoteFiles n' e c path m st = (r, st')"
  using fetch_fuel_mono(1)[OF assms(1,2), of "n' - n"] assms(3) by simp

lemma fetch_range_returns:
  assumes T: "\<forall>f\<in>set xs. MimeType f = folder_mime \<longrightarrow>
                (\<forall>pth m st. files st = fs \<longrightarrow> (\<exists>n. fst (fetchRemoteFiles n e (Id f) pth m st) \<noteq> OutOfFuel))"
      and "files st = fs"
  shows "\<exists>n. fst (fetch_range n e pth xs m st) \<noteq> OutOfFuel"
  using assms
proof (induction xs arbitrary: m st)
  case Nil
  then show ?case by simp
next
  case (Cons f rest)
  from Cons.prems(1) have T': "\<forall>f\<in>set rest. MimeType f = folder_mime \<longrightarrow>
                (\<forall>pth m st. files st = fs \<longrightarrow> (\<exists>n. fst (fetchRemoteFiles n e (Id f) pth m st) \<noteq> OutOfFuel))"
    by simp
  show ?case
  proof (cases "MimeType f = folder_mime")
    case True
    with Cons.prems obtain n1 where
      n1: "fst (fetchRemoteFiles n1 e (Id f) (filepath_Join [pth, Name f]) m st) \<noteq> OutOfFuel"
      by (metis list.set_intros(1))
    obtain r1 st1 where F: "fetchRemoteFiles n1 e (Id f) (filepath_Join [pth, Name f]) m st = (r1, st1)"
      by (cases "fetchRemoteFiles n1 e (Id f) (filepath_Join [pth, Name f]) m st")
    with n1 have r1: "r1 \<noteq> OutOfFuel" by simp
    from fetch_adds(1)[OF F] Cons.prems(2) have fs1: "files st1 = fs" by simp
    show ?thesis
    proof (cases r1)
      case (Ok m1)
      from Cons.IH[OF T' fs1, of m1] obtain n2 where
        n2: "fst (fetch_range n2 e pth rest m1 st1) \<noteq> OutOfFuel" by blast
      obtain r2 st2 where R: "fetch_range n2 e pth rest m1 st1 = (r2, st2)"
        by (cases "fetch_range n2 e pth rest m1 st1")
      with n2 have r2: "r2 \<noteq> OutOfFuel" by simp
      from fetch_fuel_mono(1)[OF F r1, of n2]
      have F': "fetchRemoteFiles (n1 + n2) e (Id f) (filepath_Join [pth, Name f]) m st = (Ok m1, st1)"
        using Ok by simp
      from fetch_fuel_mono(3)[OF R r2, of n1]
      have R': "fetch_range (n1 + n2) e pth rest m1 st1 = (r2, st2)" by (simp add: add.commute)
      have "fst (fetch_range (Suc (n1 + n2)) e pth (f # rest) m st) \<noteq> OutOfFuel"
        using True F' R' r2 by (simp add: Let_def)
      then show ?thesis by blast
    next
      case (Fail x)
      have "fst (fetch_range (Suc n1) e pth (f # rest) m st) \<noteq> OutOfFuel"
        using True F Fail by (simp add: Let_def)
      then show ?thesis by blast
    next
      case OutOfFuel
      with r1 show ?thesis by simp
    qed
  next
    case False
    from Cons.IH[OF T' Cons.prems(2), of "m(filepath_Join [pth, Name f] \<mapsto> f)"] obtain n2 where
      "fst (fetch_range n2 e pth rest (m(filepath_Join [pth, Name f] \<mapsto> f)) st) \<noteq> OutOfFuel"
      by blast
    then have "fst (fetch_range (Suc n2) e pth (f # rest) m st) \<noteq> OutOfFuel"
      using False by (simp add: Let_def)
    then show ?thesis by blast
  qed
qed

lemma Files_List_page:
  assumes "Files_List e q t st = (Ok (page, nxt), st')"
  shows "set page \<subseteq> set (filter (matches q) (files st))"
    and "files st' = files st"
    and "nxt \<noteq> 0 \<Longrightarrow> t < nxt \<and> nxt < length (filter (matches q) (files st))"
proof -
  from assms have nf: "\<not> fault e (calls st)"
    and pg: "page = take (page_len e) (drop t (filter (matches q) (files st)))"
    and nx: "nxt = (if t + page_len e < length (filter (matches q) (files st)) then t + page_len e else 0)"
    and st': "st' = record_call (FilesList q t) (Listed page nxt) st"
    by (auto simp: Files_List_def Let_def split: if_splits)
  have "set page \<subseteq> set (drop t (filter (matches q) (files st)))"
    unfolding pg by (rule set_take_subset)
  also have "\<dots> \<subseteq> set (filter (matches q) (files st))" by (rule set_drop_subset)
  finally show "set page \<subseteq> set (filter (matches q) (files st))" .
  show "files st' = files st" unfolding st' by (simp add: record_call_def)
  show "t < nxt \<and> nxt < length (filter (matches q) (files st))" if "nxt \<noteq> 0"
    using that nx by (auto simp: page_len_def split: if_splits)
qed

lemma fetch_pages_returns:
  assumes T: "\<forall>f\<in>set fs. MimeType f = folder_mime \<and> c \<in> set (Parents f) \<longrightarrow>
                (\<forall>pth m st. files st = fs \<longrightarrow> (\<exists>n. fst (fetchRemoteFiles n e (Id f) pth m st) \<noteq> OutOfFuel))"
      and "files st = fs"
  shows "\<exists>n. fst (fetch_pages n e c pth t m st) \<noteq> OutOfFuel"
  using assms(2)
proof (induction "length (filter (matches (InParents c)) fs) - t" arbitrary: t m st rule: less_induct)
  case less
  obtain r1 st1 where L: "Files_List e (InParents c) t st = (r1, st1)"
    by (cases "Files_List e (InParents c) t st")
  show ?case
  proof (cases r1)
    case (Ok pg)
    obtain page nxt where pg: "pg = (page, nxt)" by (cases pg)
    with Ok L have L': "Files_List e (InParents c) t st = (Ok (page, nxt), st1)" by simp
    note P = Files_List_page[OF L']
    from P(2) less.prems have fs1: "files st1 = fs" by simp
    have "\<forall>f\<in>set page. MimeType f = folder_mime \<longrightarrow>
                (\<forall>pth m st. files st = fs \<longrightarrow> (\<exists>n. fst (fetchRemoteFiles n e (Id f) pth m st) \<noteq> OutOfFuel))"
      using P(1) T less.prems by (auto simp: matches_def)
    from fetch_range_returns[OF this fs1, of pth m] obtain n1 where
      n1: "fst (fetch_range n1 e pth page m st1) \<noteq> OutOfFuel" by blast
    obtain r2 st2 where R: "fetch_range n1 e pth page m st1 = (r2, st2)"
      by (cases "fetch_range n1 e pth page m st1")
    with n1 have r2: "r2 \<noteq> OutOfFuel" by simp
    from fetch_adds(3)[OF R] fs1 have fs2: "files st2 = fs" by simp
    show ?thesis
    proof (cases "\<exists>m2. r2 = Ok m2 \<and> nxt \<noteq> 0")
      case True
      then obtain m2 where m2: "r2 = Ok m2" and nz: "nxt \<noteq> 0" by blast
      from P(3)[OF nz] less.prems
      have "t < nxt \<and> nxt < length (filter (matches (InParents c)) fs)" by simp
      then have "length (filter (matches (InParents c)) fs) - nxt < length (filter (matches (InParents c)) fs) - t"
        by arith
      from less.hyps[OF this fs2, of m2] obtain n2 where
        n2: "fst (fetch_pages n2 e c pth nxt m2 st2) \<noteq> OutOfFuel" by blast
      obtain r3 st3 where Pg: "fetch_pages n2 e c pth nxt m2 st2 = (r3, st3)"
        by (cases "fetch_pages n2 e c pth nxt m2 st2")
      with n2 have r3: "r3 \<noteq> OutOfFuel" by simp
      from fetch_fuel_mono(3)[OF R r2, of n2] m2
      have R': "fetch_range (n1 + n2) e pth page m st1 = (Ok m2, st2)" by simp
      from fetch_fuel_mono(2)[OF Pg r3, of n1]
      have Pg': "fetch_pages (n1 + n2) e c pth nxt m2 st2 = (r3, st3)" by (simp add: add.commute)
      have "fst (fetch_pages (Suc (n1 + n2)) e c pth t m st) \<noteq> OutOfFuel"
        using L' R' Pg' nz r3 by simp
      then show ?thesis by blast
    next
      case False
      have "fst (fetch_pages (Suc n1) e c pth t m st) \<noteq> OutOfFuel"
        using L' R r2 False by (cases r2) auto
      then show ?thesis by blast
    qed
  next
    case (Fail x)
    with L have "fst (fetch_pages (Suc 0) e c pth t m st) \<noteq> OutOfFuel" by simp
    then show ?thesis by blast
  next
    case OutOfFuel
    with L show ?thesis by (auto simp: Files_List_def Let_def split: if_splits)
  qed
qed

lemma scan_returns:
  assumes "acyclic_store fs" "files st = fs"
  shows "\<exists>n. fst (fetchRemoteFiles n e c pth m st) \<noteq> OutOfFuel"
proof -
  from assms(1) obtain rk :: "string \<Rightarrow> nat" where
    rk: "\<forall>f\<in>set fs. MimeType f = folder_mime \<longrightarrow> (\<forall>p\<in>set (Parents f). rk p < rk (Id f))"
    unfolding acyclic_store_def by blast
  define B where "B = Suc (foldr max (map (\<lambda>f. rk (Id f)) fs) 0)"
  have B: "rk (Id f) < B" if "f \<in> set fs" for f
    using foldr_max_ge[of "rk (Id f)" "map (\<lambda>f. rk (Id f)) fs"] that unfolding B_def by auto
  have "\<forall>pth m st. files st = fs \<longrightarrow> (\<exists>n. fst (fetchRemoteFiles n e c pth m st) \<noteq> OutOfFuel)"
  proof (induction "B - rk c" arbitrary: c rule: less_induct)
    case less
    have T: "\<forall>f\<in>set fs. MimeType f = folder_mime \<and> c \<in> set (Parents f) \<longrightarrow>
                (\<forall>pth m st. files st = fs \<longrightarrow> (\<exists>n. fst (fetchRemoteFiles n e (Id f) pth m st) \<noteq> OutOfFuel))"
    proof (intro ballI impI)
      fix f assume f: "f \<in> set fs" "MimeType f = folder_mime \<and> c \<in> set (Parents f)"
      with rk have "rk c < rk (Id f)" by blast
      with B[OF f(1)] have "B - rk (Id f) < B - rk c" by simp
      from less.hyps[OF this]
      show "\<forall>pth m st. files st = fs \<longrightarrow> (\<exists>n. fst (fetchRemoteFiles n e (Id f) pth m st) \<noteq> OutOfFuel)" .
    qed
    show ?case
    proof (intro allI impI)
      fix pth m and st :: drive_state assume fs: "files st = fs"
      from fetch_pages_returns[OF T fs, of pth 0 m] obtain n where
        "fst (fetch_pages n e c pth 0 m st) \<noteq> OutOfFuel" by blast
      then have "fst (fetchRemoteFiles (Suc n) e c pth m st) \<noteq> OutOfFuel" by simp
      then show "\<exists>n. fst (fetchRemoteFiles n e c pth m st) \<noteq> OutOfFuel" by blast
    qed
  qed
  with assms(2) show ?thesis by blast
qed

end
